theory Spec2Isabelle
  imports Complex_Main "HOL-Library.Log_Nat"
begin

section \<open>Python values: errors, integers and double-precision floats\<close>

text \<open>
  The script \<^verbatim>\<open>create-logos.py\<close> computes with Python integers (unbounded, modelled as
  \<^typ>\<open>int\<close>) and Python floats (IEEE 754 binary64, round to nearest, ties to even).
  Every exception the script or the imaging library can raise is a value of \<open>error\<close>.
\<close>

datatype error =
    ValueError | OverflowError | ZeroDivisionError | TypeError
  | FileExistsError | FileNotFoundError | NotADirectoryError | IsADirectoryError

definition ebind :: "error + 'a \<Rightarrow> ('a \<Rightarrow> error + 'b) \<Rightarrow> error + 'b" where
  "ebind m f = (case m of Inl e \<Rightarrow> Inl e | Inr x \<Rightarrow> f x)"

text \<open>
  A finite float is the rational number it denotes. \<open>fl\<close> rounds a rational to the nearest
  binary64 number: 53 significant bits, ties to even, gradual underflow below \<open>2\<^sup>-\<^sup>1\<^sup>0\<^sup>2\<^sup>2\<close>.
  The exponent is not bounded above here: a result of magnitude \<open>2\<^sup>1\<^sup>0\<^sup>2\<^sup>4\<close> or more stands for
  an overflow, which Python reports when the value is produced by \<^verbatim>\<open>int / int\<close> or converted by
  \<^verbatim>\<open>float(int)\<close> or \<^verbatim>\<open>int(float)\<close>. In this script an overflowed product or sum is always
  the direct argument of \<^verbatim>\<open>int(...)\<close>, so infinities never take part in further arithmetic.
\<close>

definition rhe :: "rat \<Rightarrow> int" where
  "rhe x = (let f = \<lfloor>x\<rfloor>; d = x - of_int f in
            if d < 1/2 then f else if 1/2 < d then f + 1 else if even f then f else f + 1)"

definition ilog2 :: "rat \<Rightarrow> int" where
  "ilog2 x = (let (n, d) = quotient_of x; k = bitlen n - bitlen d in
              if 2 powi k \<le> x then k else k - 1)"

definition fexp :: "rat \<Rightarrow> int" where
  "fexp x = max (ilog2 \<bar>x\<bar> - 52) (- 1074)"

definition rnd_at :: "int \<Rightarrow> rat \<Rightarrow> rat" where
  "rnd_at e x = of_int (rhe (x / 2 powi e)) * 2 powi e"

definition fl :: "rat \<Rightarrow> rat" where
  "fl x = (if x = 0 then 0 else rnd_at (fexp x) x)"

definition overflows :: "rat \<Rightarrow> bool" where
  "overflows x = (2 ^ 1024 \<le> \<bar>x\<bar>)"

definition to_float :: "int \<Rightarrow> error + rat" where
  \<comment> \<open>the implicit \<^verbatim>\<open>float(k)\<close> of mixed int/float arithmetic\<close>
  "to_float k = (let f = fl (of_int k) in if overflows f then Inl OverflowError else Inr f)"

definition truediv :: "int \<Rightarrow> int \<Rightarrow> error + rat" where
  \<comment> \<open>\<^verbatim>\<open>a / b\<close> on two ints: the correctly rounded quotient\<close>
  "truediv a b =
     (if b = 0 then Inl ZeroDivisionError
      else let q = fl (of_int a / of_int b) in
           if overflows q then Inl OverflowError else Inr q)"

definition int_minus :: "int \<Rightarrow> rat \<Rightarrow> error + rat" where
  \<comment> \<open>\<^verbatim>\<open>k - x\<close> with \<open>k\<close> an int and \<open>x\<close> a float\<close>
  "int_minus k x = ebind (to_float k) (\<lambda>f. Inr (fl (f - x)))"

definition int_times :: "int \<Rightarrow> rat \<Rightarrow> error + rat" where
  \<comment> \<open>\<^verbatim>\<open>k * x\<close> with \<open>k\<close> an int and \<open>x\<close> a float\<close>
  "int_times k x = ebind (to_float k) (\<lambda>f. Inr (fl (f * x)))"

definition float_plus :: "rat \<Rightarrow> rat \<Rightarrow> rat" where
  "float_plus a b = fl (a + b)"

definition py_int :: "rat \<Rightarrow> error + int" where
  \<comment> \<open>\<^verbatim>\<open>int(x)\<close>: truncation towards zero; an infinite argument raises\<close>
  "py_int x = (if overflows x then Inl OverflowError
               else Inr (if 0 \<le> x then \<lfloor>x\<rfloor> else \<lceil>x\<rceil>))"

definition digit_char :: "nat \<Rightarrow> char" where
  "digit_char d = ''0123456789'' ! d"

function str_nat :: "nat \<Rightarrow> string" where
  "str_nat n = (if n < 10 then [digit_char n] else str_nat (n div 10) @ [digit_char (n mod 10)])"
  by pat_completeness auto
termination
  by (relation "measure id") auto

definition py_str :: "int \<Rightarrow> string" where
  \<comment> \<open>\<^verbatim>\<open>str(i)\<close>, as used by the f-strings\<close>
  "py_str i = (if i < 0 then CHR ''-'' # str_nat (nat (- i)) else str_nat (nat i))"

section \<open>The imaging library and the operating system, as far as the script uses them\<close>

text \<open>
  The script is glue over an imaging library (PIL) that is not part of the repository.
  Images are mutable objects: \<^verbatim>\<open>draw = ImageDraw.Draw(img)\<close> is a second handle on
  \<^verbatim>\<open>img\<close>, and \<^verbatim>\<open>putalpha\<close> and the drawing calls change the object in place. The model
  therefore keeps images in a store and passes the whole world explicitly.

  A pixel holds four bands. A single-band image (mode \<open>L\<close>) uses the first band only.
\<close>

datatype mode = Mode_L | Mode_RGBA

type_synonym pixel = "int \<times> int \<times> int \<times> int"
type_synonym point = "int \<times> int"
type_synonym box = "int \<times> int \<times> int \<times> int"

datatype color = CInt int | CRGB int int int | CRGBA int int int int

datatype shape =
    Line "point list" int
  | Ellipse box
  | Rectangle box
  | Polygon "point list"
  | RoundedRectangle box int

text \<open>
  Which pixels a curved, slanted or thick primitive covers is decided by the library's
  rasteriser. It is a parameter of the model: theorems hold for every rasteriser.
\<close>

type_synonym raster = "shape \<Rightarrow> point \<Rightarrow> bool"

record image =
  im_mode :: mode
  im_size :: "int \<times> int"
  im_px :: "point \<Rightarrow> pixel"

type_synonym path = "string list"

datatype node = Dir | File image

record world =
  heap :: "nat \<Rightarrow> image option"
  next_ref :: nat
  calls :: "(nat \<times> shape \<times> color) list"
  files :: "path \<Rightarrow> node option"
  stdout :: "string list"

text \<open>
  A statement of the script runs in a world and either raises or returns a value; the
  world it leaves behind is kept in both cases. \<open>calls\<close> logs every drawing call
  (image, primitive, fill colour) in the order it is made.
\<close>

type_synonym 'a py = "world \<Rightarrow> (error + 'a) \<times> world"

definition py_ret :: "'a \<Rightarrow> 'a py" where
  "py_ret x w = (Inr x, w)"

definition py_raise :: "error \<Rightarrow> 'a py" where
  "py_raise e w = (Inl e, w)"

definition py_bind :: "'a py \<Rightarrow> ('a \<Rightarrow> 'b py) \<Rightarrow> 'b py" where
  "py_bind m f w = (case m w of (Inl e, w') \<Rightarrow> (Inl e, w') | (Inr x, w') \<Rightarrow> f x w')"

definition lift :: "error + 'a \<Rightarrow> 'a py" where
  "lift r w = (r, w)"

primrec for_each :: "'a list \<Rightarrow> ('a \<Rightarrow> unit py) \<Rightarrow> unit py" where
  "for_each [] body = py_ret ()"
| "for_each (x # xs) body = py_bind (body x) (\<lambda>_. for_each xs body)"

definition py_range :: "int \<Rightarrow> int list" where
  \<comment> \<open>\<^verbatim>\<open>range(n)\<close>; empty when \<open>n \<le> 0\<close>\<close>
  "py_range n = map int [0..<nat n]"

subsection \<open>Images\<close>

definition clip8 :: "int \<Rightarrow> int" where
  "clip8 v = max 0 (min 255 v)"

definition getink :: "mode \<Rightarrow> color \<Rightarrow> error + pixel" where
  \<comment> \<open>how the library turns a Python colour into the bytes of a pixel\<close>
  "getink m c =
     (case m of
        Mode_L \<Rightarrow> (case c of CInt v \<Rightarrow> Inr (clip8 v, 0, 0, 0) | _ \<Rightarrow> Inl TypeError)
      | Mode_RGBA \<Rightarrow>
          (case c of
             CInt v \<Rightarrow> Inr (v mod 256, v div 256 mod 256, v div 65536 mod 256, v div 16777216 mod 256)
           | CRGB r g b \<Rightarrow> Inr (clip8 r, clip8 g, clip8 b, 255)
           | CRGBA r g b a \<Rightarrow> Inr (clip8 r, clip8 g, clip8 b, clip8 a)))"

definition inside :: "image \<Rightarrow> point \<Rightarrow> bool" where
  "inside im p = (0 \<le> fst p \<and> fst p < fst (im_size im) \<and> 0 \<le> snd p \<and> snd p < snd (im_size im))"

definition alpha :: "pixel \<Rightarrow> int" where
  "alpha p = snd (snd (snd p))"

definition Image_new :: "mode \<Rightarrow> int \<times> int \<Rightarrow> color \<Rightarrow> nat py" where
  \<comment> \<open>\<^verbatim>\<open>Image.new(mode, size, color)\<close>; the colour defaults to 0\<close>
  "Image_new m sz c w =
     (if fst sz < 0 \<or> snd sz < 0 then (Inl ValueError, w)
      else case getink m c of
             Inl e \<Rightarrow> (Inl e, w)
           | Inr ink \<Rightarrow>
               (Inr (next_ref w),
                w\<lparr>heap := (heap w)(next_ref w \<mapsto> \<lparr>im_mode = m, im_size = sz, im_px = (\<lambda>_. ink)\<rparr>),
                  next_ref := Suc (next_ref w)\<rparr>))"

definition ImageDraw_Draw :: "nat \<Rightarrow> nat py" where
  \<comment> \<open>\<^verbatim>\<open>ImageDraw.Draw(img)\<close>: a drawing handle on the same image object\<close>
  "ImageDraw_Draw img = py_ret img"

definition box_ok :: "shape \<Rightarrow> bool" where
  \<comment> \<open>the library rejects a bounding box whose corners are out of order\<close>
  "box_ok sh =
     (case sh of
        Ellipse (x0, y0, x1, y1) \<Rightarrow> x0 \<le> x1 \<and> y0 \<le> y1
      | Rectangle (x0, y0, x1, y1) \<Rightarrow> x0 \<le> x1 \<and> y0 \<le> y1
      | RoundedRectangle (x0, y0, x1, y1) r \<Rightarrow> x0 \<le> x1 \<and> y0 \<le> y1
      | _ \<Rightarrow> True)"

definition covers :: "raster \<Rightarrow> shape \<Rightarrow> point \<Rightarrow> bool" where
  \<comment> \<open>a thin horizontal line is the run of pixels between its end points, both included;
      every other primitive is left to the rasteriser\<close>
  "covers R sh p =
     (case sh of
        Line [(x0, y0), (x1, y1)] wd \<Rightarrow>
          if y0 = y1 \<and> wd \<le> 1
          then snd p = y0 \<and> min x0 x1 \<le> fst p \<and> fst p \<le> max x0 x1
          else R sh p
      | _ \<Rightarrow> R sh p)"

definition draw_shape :: "raster \<Rightarrow> nat \<Rightarrow> shape \<Rightarrow> color \<Rightarrow> unit py" where
  \<comment> \<open>fill a primitive: every covered pixel inside the image takes the ink\<close>
  "draw_shape R d sh c w =
     (case heap w d of
        None \<Rightarrow> (Inl ValueError, w)
      | Some im \<Rightarrow>
          (case getink (im_mode im) c of
             Inl e \<Rightarrow> (Inl e, w)
           | Inr ink \<Rightarrow>
               if \<not> box_ok sh then (Inl ValueError, w)
               else (Inr (),
                     w\<lparr>heap := (heap w)(d \<mapsto>
                          im\<lparr>im_px := (\<lambda>p. if inside im p \<and> covers R sh p then ink else im_px im p)\<rparr>),
                       calls := calls w @ [(d, sh, c)]\<rparr>)))"

definition line :: "raster \<Rightarrow> nat \<Rightarrow> point list \<Rightarrow> color \<Rightarrow> int \<Rightarrow> unit py" where
  "line R d pts c wd = draw_shape R d (Line pts wd) c"

definition ellipse :: "raster \<Rightarrow> nat \<Rightarrow> box \<Rightarrow> color \<Rightarrow> unit py" where
  "ellipse R d b c = draw_shape R d (Ellipse b) c"

definition rectangle :: "raster \<Rightarrow> nat \<Rightarrow> box \<Rightarrow> color \<Rightarrow> unit py" where
  "rectangle R d b c = draw_shape R d (Rectangle b) c"

definition polygon :: "raster \<Rightarrow> nat \<Rightarrow> point list \<Rightarrow> color \<Rightarrow> unit py" where
  "polygon R d pts c = draw_shape R d (Polygon pts) c"

definition rounded_rectangle :: "raster \<Rightarrow> nat \<Rightarrow> box \<Rightarrow> int \<Rightarrow> color \<Rightarrow> unit py" where
  "rounded_rectangle R d b radius c = draw_shape R d (RoundedRectangle b radius) c"

definition putalpha :: "nat \<Rightarrow> nat \<Rightarrow> unit py" where
  \<comment> \<open>\<^verbatim>\<open>img.putalpha(mask)\<close>: the mask becomes the alpha band of \<open>img\<close>, in place\<close>
  "putalpha img msk w =
     (case (heap w img, heap w msk) of
        (Some im, Some mk) \<Rightarrow>
          if im_mode im = Mode_RGBA \<and> im_mode mk = Mode_L \<and> im_size im = im_size mk
          then (Inr (),
                w\<lparr>heap := (heap w)(img \<mapsto>
                     im\<lparr>im_px := (\<lambda>p. case im_px im p of (r, g, b, a) \<Rightarrow> (r, g, b, fst (im_px mk p)))\<rparr>)\<rparr>)
          else (Inl ValueError, w)
      | _ \<Rightarrow> (Inl ValueError, w))"

definition div255 :: "int \<Rightarrow> int" where
  \<comment> \<open>the library's shift-and-add division by 255\<close>
  "div255 a = (a div 256 + a) div 256"

definition composite_px :: "pixel \<Rightarrow> pixel \<Rightarrow> pixel" where
  \<comment> \<open>one pixel of the library's integer alpha compositing of \<open>src\<close> over \<open>dst\<close>\<close>
  "composite_px dst src =
     (case (dst, src) of
        ((dr, dg, db, da), (sr, sg, sb, sa)) \<Rightarrow>
          if sa = 0 then dst
          else let blend = da * (255 - sa);
                   outa255 = sa * 255 + blend;
                   coef1 = sa * 255 * 255 * 128 div outa255;
                   coef2 = 255 * 128 - coef1
               in (div255 (sr * coef1 + dr * coef2 + 16384) div 128,
                   div255 (sg * coef1 + dg * coef2 + 16384) div 128,
                   div255 (sb * coef1 + db * coef2 + 16384) div 128,
                   div255 (outa255 + 128)))"

definition alpha_composite :: "nat \<Rightarrow> nat \<Rightarrow> nat py" where
  \<comment> \<open>\<^verbatim>\<open>Image.alpha_composite(im1, im2)\<close>: a new image, \<open>im2\<close> over \<open>im1\<close>\<close>
  "alpha_composite im1 im2 w =
     (case (heap w im1, heap w im2) of
        (Some a, Some b) \<Rightarrow>
          if im_mode a = Mode_RGBA \<and> im_mode b = Mode_RGBA \<and> im_size a = im_size b
          then (Inr (next_ref w),
                w\<lparr>heap := (heap w)(next_ref w \<mapsto>
                     \<lparr>im_mode = Mode_RGBA, im_size = im_size a,
                      im_px = (\<lambda>p. composite_px (im_px a p) (im_px b p))\<rparr>),
                  next_ref := Suc (next_ref w)\<rparr>)
          else (Inl ValueError, w)
      | _ \<Rightarrow> (Inl ValueError, w))"

subsection \<open>Files and output\<close>

definition dirname :: "path \<Rightarrow> path" where
  "dirname p = butlast p"

definition join :: "path \<Rightarrow> string list \<Rightarrow> path" where
  "join p names = p @ names"

definition is_dir :: "world \<Rightarrow> path \<Rightarrow> bool" where
  "is_dir w p = (p = [] \<or> (case files w p of Some Dir \<Rightarrow> True | _ \<Rightarrow> False))"

definition exists :: "world \<Rightarrow> path \<Rightarrow> bool" where
  "exists w p = (p = [] \<or> (case files w p of None \<Rightarrow> False | Some _ \<Rightarrow> True))"

primrec mkdirs :: "path \<Rightarrow> string list \<Rightarrow> unit py" where
  "mkdirs p [] = py_ret ()"
| "mkdirs p (n # ns) =
     (\<lambda>w. case files w (p @ [n]) of
             Some (File _) \<Rightarrow> (Inl (if ns = [] then FileExistsError else NotADirectoryError), w)
           | _ \<Rightarrow> mkdirs (p @ [n]) ns (w\<lparr>files := (files w)(p @ [n] \<mapsto> Dir)\<rparr>))"

definition makedirs :: "path \<Rightarrow> unit py" where
  \<comment> \<open>\<^verbatim>\<open>os.makedirs(p, exist_ok=True)\<close>\<close>
  "makedirs p = mkdirs [] p"

definition save :: "nat \<Rightarrow> path \<Rightarrow> unit py" where
  \<comment> \<open>\<^verbatim>\<open>img.save(p)\<close>: the file holds the image as it is at the time of the call\<close>
  "save img p w =
     (case heap w img of
        None \<Rightarrow> (Inl ValueError, w)
      | Some im \<Rightarrow>
          if is_dir w p then (Inl IsADirectoryError, w)
          else if \<not> exists w (dirname p) then (Inl FileNotFoundError, w)
          else if \<not> is_dir w (dirname p) then (Inl NotADirectoryError, w)
          else (Inr (), w\<lparr>files := (files w)(p \<mapsto> File im)\<rparr>))"

definition print :: "string \<Rightarrow> unit py" where
  "print s w = (Inr (), w\<lparr>stdout := stdout w @ [s]\<rparr>)"

section \<open>The script\<close>

definition BLUE_LIGHT :: "int \<times> int \<times> int" where
  "BLUE_LIGHT = (10, 132, 255)"

definition BLUE_DARK :: "int \<times> int \<times> int" where
  "BLUE_DARK = (0, 90, 200)"

definition WHITE :: color where
  "WHITE = CRGB 255 255 255"

definition interp :: "int \<Rightarrow> int \<Rightarrow> rat \<Rightarrow> error + int" where
  \<comment> \<open>\<^verbatim>\<open>int(c1 * (1 - ratio) + c2 * ratio)\<close>, in Python's order of evaluation\<close>
  "interp c1 c2 ratio =
     ebind (int_minus 1 ratio) (\<lambda>q.
     ebind (int_times c1 q) (\<lambda>a.
     ebind (int_times c2 ratio) (\<lambda>b.
     py_int (float_plus a b))))"

definition create_gradient :: "raster \<Rightarrow> int \<Rightarrow> int \<times> int \<times> int \<Rightarrow> int \<times> int \<times> int \<Rightarrow> nat py" where
  "create_gradient R sz color1 color2 =
     py_bind (Image_new Mode_RGBA (sz, sz) (CInt 0)) (\<lambda>img.
     py_bind (ImageDraw_Draw img) (\<lambda>draw.
     py_bind (for_each (py_range sz) (\<lambda>y.
       py_bind (lift (truediv y sz)) (\<lambda>ratio.
       py_bind (lift (interp (fst color1) (fst color2) ratio)) (\<lambda>r.
       py_bind (lift (interp (fst (snd color1)) (fst (snd color2)) ratio)) (\<lambda>g.
       py_bind (lift (interp (snd (snd color1)) (snd (snd color2)) ratio)) (\<lambda>b.
       line R draw [(0, y), (sz, y)] (CRGBA r g b 255) 0)))))) (\<lambda>_.
     py_ret img)))"

definition scaled :: "int \<Rightarrow> rat \<Rightarrow> error + int" where
  \<comment> \<open>\<^verbatim>\<open>int(k * s)\<close>\<close>
  "scaled k s = ebind (int_times k s) py_int"

text \<open>
  \<open>draw_crab\<close> follows the source statement by statement. The source repeats the pure
  expressions \<^verbatim>\<open>int(5*s)\<close>, \<^verbatim>\<open>int(10*s)\<close> and \<^verbatim>\<open>int(35*s)\<close> inline; each is evaluated
  here where the source evaluates it first (\<open>s5\<close>, \<open>s10\<close>) or once per loop round (\<open>s35\<close>).
\<close>

definition draw_crab :: "raster \<Rightarrow> nat \<Rightarrow> int \<Rightarrow> color \<Rightarrow> unit py" where
  "draw_crab R draw sz color =
     (let cx = sz div 2; cy = sz div 2 in
      py_bind (lift (truediv sz 128)) (\<lambda>s.
      py_bind (lift (scaled 40 s)) (\<lambda>body_w.
      py_bind (lift (scaled 28 s)) (\<lambda>body_h.
      py_bind (lift (scaled 5 s)) (\<lambda>s5.
      py_bind (ellipse R draw (cx - body_w, cy - body_h + s5, cx + body_w, cy + body_h + s5) color) (\<lambda>_.
      py_bind (lift (scaled 15 s)) (\<lambda>s15.
      let eye_y = cy - s15 in
      py_bind (lift (scaled 18 s)) (\<lambda>eye_spacing.
      py_bind (lift (scaled 6 s)) (\<lambda>eye_r.
      py_bind (lift (scaled 3 s)) (\<lambda>stalk_w.
      py_bind (rectangle R draw (cx - eye_spacing - stalk_w div 2, eye_y,
                                 cx - eye_spacing + stalk_w div 2, cy - s5) color) (\<lambda>_.
      py_bind (ellipse R draw (cx - eye_spacing - eye_r, eye_y - eye_r,
                               cx - eye_spacing + eye_r, eye_y + eye_r) color) (\<lambda>_.
      py_bind (rectangle R draw (cx + eye_spacing - stalk_w div 2, eye_y,
                                 cx + eye_spacing + stalk_w div 2, cy - s5) color) (\<lambda>_.
      py_bind (ellipse R draw (cx + eye_spacing - eye_r, eye_y - eye_r,
                               cx + eye_spacing + eye_r, eye_y + eye_r) color) (\<lambda>_.
      let claw_y = cy - s5 in
      py_bind (lift (scaled 20 s)) (\<lambda>claw_w.
      py_bind (lift (scaled 15 s)) (\<lambda>claw_h.
      py_bind (lift (scaled 45 s)) (\<lambda>claw_offset.
      py_bind (ellipse R draw (cx - claw_offset - claw_w, claw_y - claw_h div 2,
                               cx - claw_offset + claw_w div 2, claw_y + claw_h div 2) color) (\<lambda>_.
      py_bind (lift (scaled 10 s)) (\<lambda>s10.
      py_bind (polygon R draw [(cx - claw_offset - claw_w, claw_y - s5),
                               (cx - claw_offset - claw_w - s10, claw_y - s10),
                               (cx - claw_offset - claw_w, claw_y)] color) (\<lambda>_.
      py_bind (polygon R draw [(cx - claw_offset - claw_w, claw_y + s5),
                               (cx - claw_offset - claw_w - s10, claw_y + s10),
                               (cx - claw_offset - claw_w, claw_y)] color) (\<lambda>_.
      py_bind (ellipse R draw (cx + claw_offset - claw_w div 2, claw_y - claw_h div 2,
                               cx + claw_offset + claw_w, claw_y + claw_h div 2) color) (\<lambda>_.
      py_bind (polygon R draw [(cx + claw_offset + claw_w, claw_y - s5),
                               (cx + claw_offset + claw_w + s10, claw_y - s10),
                               (cx + claw_offset + claw_w, claw_y)] color) (\<lambda>_.
      py_bind (polygon R draw [(cx + claw_offset + claw_w, claw_y + s5),
                               (cx + claw_offset + claw_w + s10, claw_y + s10),
                               (cx + claw_offset + claw_w, claw_y)] color) (\<lambda>_.
      let leg_start_y = cy + s10; leg_spacing = s10 in
      py_bind (lift (scaled 20 s)) (\<lambda>leg_len.
      py_bind (lift (scaled 4 s)) (\<lambda>leg_w.
      for_each (py_range 3) (\<lambda>i.
        let y = leg_start_y + i * leg_spacing in
        py_bind (lift (scaled 35 s)) (\<lambda>s35.
        py_bind (line R draw [(cx - s35, y), (cx - s35 - leg_len, y + leg_len div 2)]
                   color (max 1 leg_w)) (\<lambda>_.
        line R draw [(cx + s35, y), (cx + s35 + leg_len, y + leg_len div 2)]
          color (max 1 leg_w))))))))))))))))))))))))))))))"

definition highlight_alpha :: "int \<Rightarrow> int \<Rightarrow> error + int" where
  \<comment> \<open>\<^verbatim>\<open>int(80 * (1 - y / (size // 3)))\<close>\<close>
  "highlight_alpha sz y =
     ebind (truediv y (sz div 3)) (\<lambda>r.
     ebind (int_minus 1 r) (\<lambda>d.
     ebind (int_times 80 d) py_int))"

definition create_icon :: "raster \<Rightarrow> int \<Rightarrow> nat py" where
  "create_icon R sz =
     py_bind (create_gradient R sz BLUE_LIGHT BLUE_DARK) (\<lambda>img.
     py_bind (ImageDraw_Draw img) (\<lambda>draw.
     py_bind (Image_new Mode_L (sz, sz) (CInt 0)) (\<lambda>mask.
     py_bind (ImageDraw_Draw mask) (\<lambda>mask_draw.
     let radius = sz div 5 in
     py_bind (rounded_rectangle R mask_draw (0, 0, sz - 1, sz - 1) radius (CInt 255)) (\<lambda>_.
     py_bind (putalpha img mask) (\<lambda>_.
     py_bind (draw_crab R draw sz WHITE) (\<lambda>_.
     py_bind (Image_new Mode_RGBA (sz, sz) (CRGBA 0 0 0 0)) (\<lambda>highlight.
     py_bind (ImageDraw_Draw highlight) (\<lambda>highlight_draw.
     py_bind (for_each (py_range (sz div 3)) (\<lambda>y.
       py_bind (lift (highlight_alpha sz y)) (\<lambda>a.
       line R highlight_draw [(0, y), (sz, y)] (CRGBA 255 255 255 a) 0))) (\<lambda>_.
     py_bind (alpha_composite img highlight) (\<lambda>img'.
     py_ret img')))))))))))"

definition main :: "raster \<Rightarrow> path \<Rightarrow> unit py" where
  \<comment> \<open>\<open>script_file\<close> is \<^verbatim>\<open>os.path.abspath(__file__)\<close>\<close>
  "main R script_file =
     (let script_dir = dirname script_file;
          ext_dir = dirname script_dir;
          public_icons = join ext_dir [''public'', ''icons''];
          dist_icons = join ext_dir [''dist'', ''icons'']
      in
      py_bind (makedirs public_icons) (\<lambda>_.
      py_bind (makedirs dist_icons) (\<lambda>_.
      py_bind (for_each [16, 48, 128] (\<lambda>sz.
        py_bind (create_icon R sz) (\<lambda>icon.
        let filename = ''icon'' @ py_str sz @ ''.png'' in
        py_bind (save icon (join public_icons [filename])) (\<lambda>_.
        py_bind (save icon (join dist_icons [filename])) (\<lambda>_.
        print (''Created '' @ filename @ '' ('' @ py_str sz @ ''x'' @ py_str sz @ '')'')))))) (\<lambda>_.
      py_bind (create_icon R 256) (\<lambda>logo.
      py_bind (save logo (join ext_dir [''public'', ''logo-square.png''])) (\<lambda>_.
      py_bind (save logo (join ext_dir [''dist'', ''logo-square.png''])) (\<lambda>_.
      py_bind (print ''Created logo-square.png (256x256)'') (\<lambda>_.
      print ''All icons created successfully!''))))))))"


section \<open>Vocabulary for stating results\<close>

text \<open>
  The definitions below are not part of the script. They name what a successful run leaves
  behind, so that the theorems can say it: the value of a computation that did not raise,
  an image with a list of primitives or a band of rows painted on it, and the primitives,
  colours and images that the functions of the script produce for a given size.
\<close>

definition outr :: "'a \<Rightarrow> error + 'a \<Rightarrow> 'a" where
  "outr d r = (case r of Inl _ \<Rightarrow> d | Inr x \<Rightarrow> x)"

definition paint_all :: "raster \<Rightarrow> shape list \<Rightarrow> pixel \<Rightarrow> image \<Rightarrow> image" where
  "paint_all R shs ink im =
     im\<lparr>im_px := (\<lambda>p. if inside im p \<and> list_ex (\<lambda>sh. covers R sh p) shs then ink else im_px im p)\<rparr>"

definition row_ink :: "mode \<Rightarrow> (int \<Rightarrow> error + color) \<Rightarrow> int \<Rightarrow> pixel" where
  "row_ink m col y = outr (0, 0, 0, 0) (ebind (col y) (getink m))"

definition paint_rows :: "int \<Rightarrow> int \<Rightarrow> (int \<Rightarrow> error + color) \<Rightarrow> image \<Rightarrow> image" where
  \<comment> \<open>rows \<open>0 .. n - 1\<close> painted by the lines \<^verbatim>\<open>[(0, y), (sz, y)]\<close>, row \<open>y\<close> in colour \<open>col y\<close>\<close>
  "paint_rows sz n col im =
     im\<lparr>im_px := (\<lambda>p. if inside im p \<and> 0 \<le> snd p \<and> snd p < n \<and> min 0 sz \<le> fst p \<and> fst p \<le> max 0 sz
                      then row_ink (im_mode im) col (snd p) else im_px im p)\<rparr>"

definition row_calls :: "nat \<Rightarrow> int \<Rightarrow> int \<Rightarrow> (int \<Rightarrow> error + color) \<Rightarrow> (nat \<times> shape \<times> color) list" where
  "row_calls d sz n col =
     map (\<lambda>y. (d, Line [(0, y), (sz, y)] 0, outr (CInt 0) (col y))) (py_range n)"

definition gradient_color :: "int \<Rightarrow> int \<times> int \<times> int \<Rightarrow> int \<times> int \<times> int \<Rightarrow> int \<Rightarrow> error + color" where
  "gradient_color sz color1 color2 y =
     ebind (truediv y sz) (\<lambda>ratio.
     ebind (interp (fst color1) (fst color2) ratio) (\<lambda>r.
     ebind (interp (fst (snd color1)) (fst (snd color2)) ratio) (\<lambda>g.
     ebind (interp (snd (snd color1)) (snd (snd color2)) ratio) (\<lambda>b.
     Inr (CRGBA r g b 255)))))"

definition highlight_color :: "int \<Rightarrow> int \<Rightarrow> error + color" where
  "highlight_color sz y = ebind (highlight_alpha sz y) (\<lambda>a. Inr (CRGBA 255 255 255 a))"

definition sc :: "int \<Rightarrow> int \<Rightarrow> int" where
  \<comment> \<open>\<^verbatim>\<open>int(k * s)\<close> for \<^verbatim>\<open>s = size / 128\<close>\<close>
  "sc sz k = outr 0 (ebind (truediv sz 128) (scaled k))"

definition crab_legs :: "int \<Rightarrow> shape list" where
  "crab_legs sz =
     concat (map (\<lambda>i.
       (let cx = sz div 2; y = sz div 2 + sc sz 10 + i * sc sz 10; leg_len = sc sz 20 in
        [Line [(cx - sc sz 35, y), (cx - sc sz 35 - leg_len, y + leg_len div 2)] (max 1 (sc sz 4)),
         Line [(cx + sc sz 35, y), (cx + sc sz 35 + leg_len, y + leg_len div 2)] (max 1 (sc sz 4))]))
       [0, 1, 2])"

definition crab_shapes :: "int \<Rightarrow> shape list" where
  \<comment> \<open>the primitives of \<open>draw_crab\<close>, in the order they are drawn\<close>
  "crab_shapes sz =
     (let cx = sz div 2; cy = sz div 2;
          body_w = sc sz 40; body_h = sc sz 28; s5 = sc sz 5; s10 = sc sz 10;
          eye_y = cy - sc sz 15; eye_spacing = sc sz 18; eye_r = sc sz 6; stalk_w = sc sz 3;
          claw_y = cy - s5; claw_w = sc sz 20; claw_h = sc sz 15; claw_offset = sc sz 45
      in [Ellipse (cx - body_w, cy - body_h + s5, cx + body_w, cy + body_h + s5),
          Rectangle (cx - eye_spacing - stalk_w div 2, eye_y, cx - eye_spacing + stalk_w div 2, cy - s5),
          Ellipse (cx - eye_spacing - eye_r, eye_y - eye_r, cx - eye_spacing + eye_r, eye_y + eye_r),
          Rectangle (cx + eye_spacing - stalk_w div 2, eye_y, cx + eye_spacing + stalk_w div 2, cy - s5),
          Ellipse (cx + eye_spacing - eye_r, eye_y - eye_r, cx + eye_spacing + eye_r, eye_y + eye_r),
          Ellipse (cx - claw_offset - claw_w, claw_y - claw_h div 2,
                   cx - claw_offset + claw_w div 2, claw_y + claw_h div 2),
          Polygon [(cx - claw_offset - claw_w, claw_y - s5),
                   (cx - claw_offset - claw_w - s10, claw_y - s10),
                   (cx - claw_offset - claw_w, claw_y)],
          Polygon [(cx - claw_offset - claw_w, claw_y + s5),
                   (cx - claw_offset - claw_w - s10, claw_y + s10),
                   (cx - claw_offset - claw_w, claw_y)],
          Ellipse (cx + claw_offset - claw_w div 2, claw_y - claw_h div 2,
                   cx + claw_offset + claw_w, claw_y + claw_h div 2),
          Polygon [(cx + claw_offset + claw_w, claw_y - s5),
                   (cx + claw_offset + claw_w + s10, claw_y - s10),
                   (cx + claw_offset + claw_w, claw_y)],
          Polygon [(cx + claw_offset + claw_w, claw_y + s5),
                   (cx + claw_offset + claw_w + s10, claw_y + s10),
                   (cx + claw_offset + claw_w, claw_y)]] @ crab_legs sz)"

definition is_line :: "shape \<Rightarrow> bool" where
  "is_line sh = (case sh of Line _ _ \<Rightarrow> True | _ \<Rightarrow> False)"

definition line_width :: "shape \<Rightarrow> int" where
  "line_width sh = (case sh of Line _ wd \<Rightarrow> wd | _ \<Rightarrow> 0)"


text \<open>
  \<open>painted_from R d c w0 shs w\<close>: world \<open>w\<close> is \<open>w0\<close> after the primitives \<open>shs\<close> have been
  filled on image \<open>d\<close> in colour \<open>c\<close>, one after the other.
\<close>

definition painted_from :: "raster \<Rightarrow> nat \<Rightarrow> color \<Rightarrow> world \<Rightarrow> shape list \<Rightarrow> world \<Rightarrow> bool" where
  "painted_from R d c w0 shs w =
     (\<exists>im ink. heap w0 d = Some im \<and> getink (im_mode im) c = Inr ink \<and>
        w = w0\<lparr>heap := (heap w0)(d \<mapsto> paint_all R shs ink im),
               calls := calls w0 @ map (\<lambda>sh. (d, sh, c)) shs\<rparr>)"

definition rows_world :: "nat \<Rightarrow> int \<Rightarrow> int \<Rightarrow> (int \<Rightarrow> error + color) \<Rightarrow> image \<Rightarrow> world \<Rightarrow> world" where
  "rows_world d sz n col im w =
     w\<lparr>heap := (heap w)(d \<mapsto> paint_rows sz n col im), calls := calls w @ row_calls d sz n col\<rparr>"

definition new_image :: "mode \<Rightarrow> int \<Rightarrow> pixel \<Rightarrow> image" where
  "new_image m sz ink = \<lparr>im_mode = m, im_size = (sz, sz), im_px = (\<lambda>_. ink)\<rparr>"

definition with_alpha :: "image \<Rightarrow> image \<Rightarrow> image" where
  "with_alpha im mk = im\<lparr>im_px := (\<lambda>p. case im_px im p of (r, g, b, a) \<Rightarrow> (r, g, b, fst (im_px mk p)))\<rparr>"

definition composite :: "image \<Rightarrow> image \<Rightarrow> image" where
  "composite a b =
     \<lparr>im_mode = Mode_RGBA, im_size = im_size a, im_px = (\<lambda>p. composite_px (im_px a p) (im_px b p))\<rparr>"

text \<open>
  The four images of one run of \<open>create_icon\<close>: the gradient (as \<open>create_gradient\<close> returns
  it), the mask, the base image (the gradient object after \<^verbatim>\<open>putalpha\<close> and \<open>draw_crab\<close>), the
  highlight, and the icon that is returned.
\<close>

definition gradient_image :: "int \<Rightarrow> int \<times> int \<times> int \<Rightarrow> int \<times> int \<times> int \<Rightarrow> image" where
  "gradient_image sz color1 color2 =
     paint_rows sz sz (gradient_color sz color1 color2) (new_image Mode_RGBA sz (0, 0, 0, 0))"

definition mask_shape :: "int \<Rightarrow> shape" where
  "mask_shape sz = RoundedRectangle (0, 0, sz - 1, sz - 1) (sz div 5)"

definition mask_image :: "raster \<Rightarrow> int \<Rightarrow> image" where
  "mask_image R sz = paint_all R [mask_shape sz] (255, 0, 0, 0) (new_image Mode_L sz (0, 0, 0, 0))"

definition base_image :: "raster \<Rightarrow> int \<Rightarrow> image" where
  "base_image R sz =
     paint_all R (crab_shapes sz) (255, 255, 255, 255)
       (with_alpha (gradient_image sz BLUE_LIGHT BLUE_DARK) (mask_image R sz))"

definition highlight_image :: "int \<Rightarrow> image" where
  "highlight_image sz =
     paint_rows sz (sz div 3) (highlight_color sz) (new_image Mode_RGBA sz (0, 0, 0, 0))"

definition icon_image :: "raster \<Rightarrow> int \<Rightarrow> image" where
  "icon_image R sz = composite (base_image R sz) (highlight_image sz)"

definition icon_calls :: "nat \<Rightarrow> int \<Rightarrow> (nat \<times> shape \<times> color) list" where
  \<comment> \<open>the drawing calls of one run of \<open>create_icon\<close> whose first new image is \<open>n\<close>\<close>
  "icon_calls n sz =
     row_calls n sz sz (gradient_color sz BLUE_LIGHT BLUE_DARK)
     @ [(Suc n, mask_shape sz, CInt 255)]
     @ map (\<lambda>sh. (n, sh, WHITE)) (crab_shapes sz)
     @ row_calls (Suc (Suc n)) sz (sz div 3) (highlight_color sz)"

definition icon_world :: "raster \<Rightarrow> int \<Rightarrow> world \<Rightarrow> world" where
  \<comment> \<open>the world after one run of \<open>create_icon\<close>\<close>
  "icon_world R sz w =
     w\<lparr>heap := (heap w)(next_ref w \<mapsto> base_image R sz,
                        Suc (next_ref w) \<mapsto> mask_image R sz,
                        Suc (Suc (next_ref w)) \<mapsto> highlight_image sz,
                        Suc (Suc (Suc (next_ref w))) \<mapsto> icon_image R sz),
       next_ref := Suc (Suc (Suc (Suc (next_ref w)))),
       calls := calls w @ icon_calls (next_ref w) sz\<rparr>"

definition gradient_value :: "int \<Rightarrow> int \<Rightarrow> int \<Rightarrow> int \<Rightarrow> int" where
  \<comment> \<open>one channel of row \<open>y\<close> of the gradient: \<^verbatim>\<open>int(c1 * (1 - y / size) + c2 * (y / size))\<close>\<close>
  "gradient_value sz c1 c2 y = outr 0 (ebind (truediv y sz) (interp c1 c2))"

definition hl_alpha :: "int \<Rightarrow> int \<Rightarrow> int" where
  \<comment> \<open>the alpha of row \<open>y\<close> of the highlight\<close>
  "hl_alpha sz y = outr 0 (highlight_alpha sz y)"

text \<open>
  An idealised rasteriser, used to exhibit concrete runs: a pixel is covered when its
  integer coordinates satisfy the equation of the shape. The library's own rasteriser may
  differ from it on boundary pixels.
\<close>

definition cross :: "point \<Rightarrow> point \<Rightarrow> point \<Rightarrow> int" where
  "cross a b p = (fst b - fst a) * (snd p - snd a) - (snd b - snd a) * (fst p - fst a)"

definition in_box :: "box \<Rightarrow> point \<Rightarrow> bool" where
  "in_box b p = (case b of (x0, y0, x1, y1) \<Rightarrow> x0 \<le> fst p \<and> fst p \<le> x1 \<and> y0 \<le> snd p \<and> snd p \<le> y1)"

definition ideal_raster :: raster where
  "ideal_raster sh p =
     (case sh of
        Rectangle b \<Rightarrow> in_box b p
      | Ellipse (x0, y0, x1, y1) \<Rightarrow>
          in_box (x0, y0, x1, y1) p \<and>
          (let w = x1 - x0; h = y1 - y0; u = 2 * fst p - x0 - x1; v = 2 * snd p - y0 - y1
           in u * u * h * h + v * v * w * w \<le> w * w * h * h)
      | RoundedRectangle (x0, y0, x1, y1) r \<Rightarrow>
          in_box (x0, y0, x1, y1) p \<and>
          (let dx = max 0 (max (x0 + r - fst p) (fst p - (x1 - r)));
               dy = max 0 (max (y0 + r - snd p) (snd p - (y1 - r)))
           in dx = 0 \<or> dy = 0 \<or> dx * dx + dy * dy \<le> r * r)
      | Polygon pts \<Rightarrow>
          (case pts of
             [a, b, c] \<Rightarrow>
               (let d1 = cross a b p; d2 = cross b c p; d3 = cross c a p
                in \<not> ((d1 < 0 \<or> d2 < 0 \<or> d3 < 0) \<and> (0 < d1 \<or> 0 < d2 \<or> 0 < d3)))
           | _ \<Rightarrow> False)
      | Line pts wd \<Rightarrow>
          (case pts of
             [a, b] \<Rightarrow>
               (let len2 = (fst b - fst a) * (fst b - fst a) + (snd b - snd a) * (snd b - snd a);
                    t = (fst p - fst a) * (fst b - fst a) + (snd p - snd a) * (snd b - snd a);
                    c = cross a b p
                in 0 \<le> t \<and> t \<le> len2 \<and> 4 * c * c \<le> max 1 wd * max 1 wd * len2)
           | _ \<Rightarrow> False))"

definition result_pixel :: "(error + nat) \<times> world \<Rightarrow> point \<Rightarrow> pixel option" where
  \<comment> \<open>a pixel of the image that a run returned\<close>
  "result_pixel run p =
     (case run of
        (Inr r, w) \<Rightarrow> (case heap w r of Some im \<Rightarrow> Some (im_px im p) | None \<Rightarrow> None)
      | (Inl _, _) \<Rightarrow> None)"

definition heap_pixel :: "(error + nat) \<times> world \<Rightarrow> nat \<Rightarrow> point \<Rightarrow> pixel option" where
  \<comment> \<open>a pixel of an image that a run left in the store\<close>
  "heap_pixel run d p = (case heap (snd run) d of Some im \<Rightarrow> Some (im_px im p) | None \<Rightarrow> None)"

definition in_byte :: "int \<Rightarrow> bool" where
  "in_byte v = (0 \<le> v \<and> v \<le> 255)"

definition color_ok :: "color \<Rightarrow> bool" where
  \<comment> \<open>every channel of a colour that the script hands to the library is in 0..255\<close>
  "color_ok c =
     (case c of
        CInt v \<Rightarrow> in_byte v
      | CRGB r g b \<Rightarrow> in_byte r \<and> in_byte g \<and> in_byte b
      | CRGBA r g b a \<Rightarrow> in_byte r \<and> in_byte g \<and> in_byte b \<and> in_byte a)"

definition pixel_ok :: "pixel \<Rightarrow> bool" where
  "pixel_ok p = (case p of (r, g, b, a) \<Rightarrow> in_byte r \<and> in_byte g \<and> in_byte b \<and> in_byte a)"

definition rgb_ok :: "int \<times> int \<times> int \<Rightarrow> bool" where
  \<comment> \<open>an RGB colour: three channels in 0..255\<close>
  "rgb_ok c = (in_byte (fst c) \<and> in_byte (fst (snd c)) \<and> in_byte (snd (snd c)))"

definition exact_row :: "int \<Rightarrow> int \<Rightarrow> int \<Rightarrow> int \<Rightarrow> int" where
  \<comment> \<open>the interpolation \<open>c1 * (1 - y / size) + c2 * (y / size)\<close> in exact arithmetic, rounded down\<close>
  "exact_row sz c1 c2 y = (c1 * (sz - y) + c2 * y) div sz"

text \<open>Concrete worlds and a rasteriser for exhibiting runs.\<close>

definition blank_world :: world where
  "blank_world = \<lparr>heap = (\<lambda>_. None), next_ref = 0, calls = [], files = (\<lambda>_. None), stdout = []\<rparr>"

definition canvas_world :: "int \<Rightarrow> world" where
  \<comment> \<open>a world holding one transparent RGBA image of the given size, at reference 0\<close>
  "canvas_world sz = snd (Image_new Mode_RGBA (sz, sz) (CInt 0) blank_world)"

definition no_raster :: raster where
  "no_raster = (\<lambda>_ _. False)"

section \<open>Properties of the float model\<close>

lemma int_lt_pow_bitlen: "0 < (n::int) \<Longrightarrow> (of_int n :: rat) < 2 powi (bitlen n)"
proof -
  assume n: "0 < n"
  have "n < 2 ^ nat (bitlen n)" using bitlen_bounds[OF n] by simp
  then have "(of_int n :: rat) < of_int (2 ^ nat (bitlen n))" by (simp only: of_int_less_iff)
  then show ?thesis using bitlen_nonneg[of n] by (simp add: power_int_def)
qed

lemma int_ge_pow_bitlen: "0 < (n::int) \<Longrightarrow> 2 powi (bitlen n - 1) \<le> (of_int n :: rat)"
proof -
  assume n: "0 < n"
  have b: "1 \<le> bitlen n" using n bitlen_eq_zero_iff[of n] bitlen_nonneg[of n] by linarith
  have "2 ^ nat (bitlen n - 1) \<le> n" using bitlen_bounds[OF n] by simp
  then have "(of_int (2 ^ nat (bitlen n - 1)) :: rat) \<le> of_int n" by (simp only: of_int_le_iff)
  then show ?thesis using b by (simp add: power_int_def)
qed

lemma ilog2_bounds:
  assumes "0 < x"
  shows "2 powi (ilog2 x) \<le> x" and "x < 2 powi (ilog2 x + 1)"
proof -
  obtain n d where q: "quotient_of x = (n, d)" by (cases "quotient_of x")
  have d: "0 < d" using q quotient_of_denom_pos by blast
  have x: "x = of_int n / of_int d" using q quotient_of_div by blast
  have n: "0 < n" using assms d x by (simp add: zero_less_divide_iff)
  define k where "k = bitlen n - bitlen d"
  have up: "x < 2 powi (k + 1)"
  proof -
    have "of_int n < (2::rat) powi (bitlen n)" by (rule int_lt_pow_bitlen[OF n])
    also have "\<dots> = 2 powi (k + 1) * 2 powi (bitlen d - 1)"
      by (simp add: k_def flip: power_int_add)
    also have "\<dots> \<le> 2 powi (k + 1) * of_int d"
      by (rule mult_left_mono[OF int_ge_pow_bitlen[OF d]]) simp
    finally show ?thesis unfolding x using d by (simp add: pos_divide_less_eq)
  qed
  have lo: "2 powi (k - 1) < x"
  proof -
    have "(2::rat) powi (k - 1) * of_int d < 2 powi (k - 1) * 2 powi (bitlen d)"
      by (rule mult_strict_left_mono[OF int_lt_pow_bitlen[OF d]]) simp
    also have "\<dots> = 2 powi (bitlen n - 1)"
      by (simp add: k_def flip: power_int_add)
    also have "\<dots> \<le> of_int n" by (rule int_ge_pow_bitlen[OF n])
    finally show ?thesis unfolding x using d by (simp add: pos_less_divide_eq)
  qed
  have il: "ilog2 x = (if 2 powi k \<le> x then k else k - 1)"
    by (simp add: ilog2_def q k_def Let_def)
  show "2 powi (ilog2 x) \<le> x" using lo by (auto simp: il)
  show "x < 2 powi (ilog2 x + 1)" using up by (auto simp: il)
qed

lemma powi2_mono: "a \<le> b \<Longrightarrow> (2::rat) powi a \<le> 2 powi b"
  by (rule power_int_increasing) simp_all

lemma powi2_less_imp: "(2::rat) powi a < 2 powi b \<Longrightarrow> a < b"
  using powi2_mono[of b a] by (cases "a < b") auto

lemma ilog2_unique:
  assumes "0 < x" "2 powi k \<le> x" "x < 2 powi (k + 1)"
  shows "ilog2 x = k"
proof -
  have "(2::rat) powi (ilog2 x) < 2 powi (k + 1)"
    using ilog2_bounds(1)[OF assms(1)] assms(3) by simp
  then have a: "ilog2 x < k + 1" by (rule powi2_less_imp)
  have "(2::rat) powi k < 2 powi (ilog2 x + 1)"
    using ilog2_bounds(2)[OF assms(1)] assms(2) by simp
  then have b: "k < ilog2 x + 1" by (rule powi2_less_imp)
  show ?thesis using a b by simp
qed

lemma ilog2_mono: "0 < x \<Longrightarrow> x \<le> y \<Longrightarrow> ilog2 x \<le> ilog2 y"
proof -
  assume x: "0 < x" and xy: "x \<le> y"
  have "(2::rat) powi (ilog2 x) \<le> x" by (rule ilog2_bounds(1)[OF x])
  also have "\<dots> \<le> y" by (rule xy)
  also have "\<dots> < 2 powi (ilog2 y + 1)" using ilog2_bounds(2)[of y] x xy by simp
  finally have "ilog2 x < ilog2 y + 1" by (rule powi2_less_imp)
  then show ?thesis by simp
qed

lemma rhe_of_int [simp]: "rhe (of_int n) = n"
  by (simp add: rhe_def)

lemma rhe_mono: "x \<le> y \<Longrightarrow> rhe x \<le> rhe y"
proof -
  assume xy: "x \<le> y"
  have fm: "\<lfloor>x\<rfloor> \<le> \<lfloor>y\<rfloor>" using xy by (rule floor_mono)
  show ?thesis
  proof (cases "\<lfloor>x\<rfloor> = \<lfloor>y\<rfloor>")
    case True
    then show ?thesis using xy by (auto simp: rhe_def Let_def)
  next
    case False
    then have "\<lfloor>x\<rfloor> + 1 \<le> \<lfloor>y\<rfloor>" using fm by simp
    moreover have "rhe x \<le> \<lfloor>x\<rfloor> + 1" by (auto simp: rhe_def Let_def)
    moreover have "\<lfloor>y\<rfloor> \<le> rhe y" by (auto simp: rhe_def Let_def)
    ultimately show ?thesis by linarith
  qed
qed

lemma rhe_err: "\<bar>of_int (rhe x) - x\<bar> \<le> 1/2"
proof -
  have a: "of_int \<lfloor>x\<rfloor> \<le> x" and b: "x < of_int \<lfloor>x\<rfloor> + 1" by linarith+
  show ?thesis using a b by (auto simp: rhe_def Let_def abs_le_iff)
qed

lemma rhe_nonneg: "0 \<le> x \<Longrightarrow> 0 \<le> rhe x"
  using rhe_mono[of 0 x] by (simp add: rhe_def)

lemma fl_zero [simp]: "fl 0 = 0"
  by (simp add: fl_def)

lemma rnd_at_mono: "x \<le> y \<Longrightarrow> rnd_at e x \<le> rnd_at e y"
proof -
  assume "x \<le> y"
  then have "x / 2 powi e \<le> y / 2 powi e" by (simp add: divide_right_mono)
  then have "rhe (x / 2 powi e) \<le> rhe (y / 2 powi e)" by (rule rhe_mono)
  then show ?thesis unfolding rnd_at_def by (simp add: mult_right_mono)
qed

lemma rnd_at_multiple: "rnd_at e (of_int m * 2 powi e) = of_int m * 2 powi e"
  by (simp add: rnd_at_def)

lemma rnd_at_pow: "e \<le> k \<Longrightarrow> rnd_at e (2 powi k) = 2 powi k"
proof -
  assume ek: "e \<le> k"
  have "(2::rat) powi k = of_int (2 ^ nat (k - e)) * 2 powi e"
  proof -
    have "(2::rat) powi k = 2 powi (k - e) * 2 powi e" by (simp flip: power_int_add)
    also have "(2::rat) powi (k - e) = of_int (2 ^ nat (k - e))"
      using ek by (simp add: power_int_def)
    finally show ?thesis .
  qed
  then show ?thesis using rnd_at_multiple[of e "2 ^ nat (k - e)"] by simp
qed

lemma fl_pos_eq: "0 < x \<Longrightarrow> fl x = rnd_at (fexp x) x"
  by (simp add: fl_def)

lemma fexp_mono: "0 < x \<Longrightarrow> x \<le> y \<Longrightarrow> fexp x \<le> fexp y"
  using ilog2_mono[of x y] by (simp add: fexp_def)

lemma fl_mono_pos:
  assumes x: "0 < x" and xy: "x \<le> y"
  shows "fl x \<le> fl y"
proof -
  have y: "0 < y" using x xy by simp
  have e: "fexp x \<le> fexp y" by (rule fexp_mono[OF x xy])
  show ?thesis
  proof (cases "fexp x = fexp y")
    case True
    then show ?thesis using rnd_at_mono[OF xy, of "fexp y"] by (simp add: fl_pos_eq x y)
  next
    case False
    then have lt: "fexp x < fexp y" using e by simp
    then have ey: "fexp y = ilog2 y - 52"
      using x y by (auto simp: fexp_def max_def split: if_splits)
    let ?B = "(2::rat) powi (ilog2 y)"
    have lxy: "ilog2 x < ilog2 y"
      using lt x y by (auto simp: fexp_def max_def split: if_splits)
    have xB: "x \<le> ?B"
    proof -
      have "x < 2 powi (ilog2 x + 1)" by (rule ilog2_bounds(2)[OF x])
      also have "\<dots> \<le> ?B" using lxy by (intro powi2_mono) simp
      finally show ?thesis by simp
    qed
    have By: "?B \<le> y" by (rule ilog2_bounds(1)[OF y])
    have "fl x = rnd_at (fexp x) x" by (rule fl_pos_eq[OF x])
    also have "\<dots> \<le> rnd_at (fexp x) ?B" by (rule rnd_at_mono[OF xB])
    also have "\<dots> = ?B" using lt ey by (intro rnd_at_pow) simp
    also have "\<dots> = rnd_at (fexp y) ?B" using ey by (intro rnd_at_pow[symmetric]) simp
    also have "\<dots> \<le> rnd_at (fexp y) y" by (rule rnd_at_mono[OF By])
    also have "\<dots> = fl y" by (rule fl_pos_eq[OF y, symmetric])
    finally show ?thesis .
  qed
qed

lemma fl_nonneg: "0 \<le> x \<Longrightarrow> 0 \<le> fl x"
proof (cases "x = 0")
  case True
  then show ?thesis by simp
next
  case False
  assume "0 \<le> x"
  then have "0 \<le> rhe (x / 2 powi fexp x)" by (intro rhe_nonneg) simp
  then show ?thesis using False by (simp add: fl_def rnd_at_def)
qed

lemma fl_mono: "0 \<le> x \<Longrightarrow> x \<le> y \<Longrightarrow> fl x \<le> fl y"
  using fl_mono_pos[of x y] fl_nonneg[of y] by (cases "x = 0") auto

text \<open>Representable numbers are fixed points of rounding.\<close>

lemma fl_exact:
  assumes m: "\<bar>m\<bar> < 2 ^ 53" and e: "- 1074 \<le> e"
  shows "fl (of_int m * 2 powi e) = of_int m * 2 powi e"
proof (cases "m = 0")
  case True
  then show ?thesis by simp
next
  case False
  let ?x = "(of_int m :: rat) * 2 powi e"
  have x0: "?x \<noteq> 0" using False by simp
  have pos: "0 < \<bar>?x\<bar>" using x0 by simp
  have "\<bar>?x\<bar> = of_int \<bar>m\<bar> * 2 powi e" by (simp add: abs_mult)
  also have "\<dots> < of_int (2 ^ 53) * 2 powi e"
    using m by (intro mult_strict_right_mono)
      (simp_all only: of_int_less_iff zero_less_power_int zero_less_numeral)
  also have "\<dots> = 2 powi (53 + e)" by (simp add: power_int_add)
  finally have "\<bar>?x\<bar> < 2 powi (53 + e)" .
  then have "(2::rat) powi (ilog2 \<bar>?x\<bar>) < 2 powi (53 + e)"
    using ilog2_bounds(1)[OF pos] by simp
  then have "ilog2 \<bar>?x\<bar> < 53 + e" by (rule powi2_less_imp)
  then have fe: "fexp ?x \<le> e" using e by (simp add: fexp_def)
  have "?x / 2 powi (fexp ?x) = of_int m * 2 powi (e - fexp ?x)"
    by (simp add: power_int_diff)
  also have "(2::rat) powi (e - fexp ?x) = of_int (2 ^ nat (e - fexp ?x))"
    using fe by (simp add: power_int_def)
  finally have "?x / 2 powi (fexp ?x) = of_int (m * 2 ^ nat (e - fexp ?x))" by simp
  then have "rhe (?x / 2 powi (fexp ?x)) = m * 2 ^ nat (e - fexp ?x)"
    by (simp only: rhe_of_int)
  then have "fl ?x = of_int (m * 2 ^ nat (e - fexp ?x)) * 2 powi (fexp ?x)"
    using x0 by (simp only: fl_def rnd_at_def if_False)
  also have "\<dots> = of_int m * (2 powi (e - fexp ?x) * 2 powi (fexp ?x))"
    using fe by (simp add: power_int_def)
  also have "\<dots> = ?x" by (simp flip: power_int_add)
  finally show ?thesis .
qed

lemma fl_of_int: "\<bar>n\<bar> < 2 ^ 53 \<Longrightarrow> fl (of_int n) = of_int n"
  using fl_exact[of n 0] by simp

lemma fl_one [simp]: "fl 1 = 1"
  using fl_of_int[of 1] by simp

lemma fl_pow2: "0 \<le> k \<Longrightarrow> fl (2 ^ k) = 2 ^ k"
  using fl_exact[of 1 "int k"] by (simp add: power_int_def)

lemma fl_le_pow2: "0 \<le> x \<Longrightarrow> x \<le> 2 ^ k \<Longrightarrow> fl x \<le> 2 ^ k"
  using fl_mono[of x "2 ^ k"] by (simp add: fl_pow2)

lemma rhe_bound:
  assumes "\<bar>x\<bar> \<le> of_int n"
  shows "\<bar>rhe x\<bar> \<le> n"
proof -
  have a: "x \<le> of_int n" and b: "of_int (- n) \<le> x" using assms by (auto simp: abs_le_iff)
  have "rhe x \<le> rhe (of_int n)" by (rule rhe_mono[OF a])
  moreover have "rhe (of_int (- n)) \<le> rhe x" by (rule rhe_mono[OF b])
  ultimately show ?thesis by (simp only: rhe_of_int)
qed

lemma fl_exact_le:
  assumes m: "\<bar>m\<bar> \<le> 2 ^ 53" and e: "- 1074 \<le> e"
  shows "fl (of_int m * 2 powi e) = of_int m * 2 powi e"
proof (cases "\<bar>m\<bar> < 2 ^ 53")
  case True
  then show ?thesis using e by (rule fl_exact)
next
  case False
  then have "\<bar>m\<bar> = 2 ^ 53" using m by simp
  then consider "m = 2 ^ 53" | "m = - (2 ^ 53)" by (auto simp: abs_if split: if_splits)
  then show ?thesis
  proof cases
    case 1
    have "(of_int m :: rat) * 2 powi e = of_int (2 ^ 52) * 2 powi (e + 1)"
      unfolding 1 by (simp add: power_int_add)
    then show ?thesis using fl_exact[of "2 ^ 52" "e + 1"] e by simp
  next
    case 2
    have "(of_int m :: rat) * 2 powi e = of_int (- (2 ^ 52)) * 2 powi (e + 1)"
      unfolding 2 by (simp add: power_int_add)
    then show ?thesis using fl_exact[of "- (2 ^ 52)" "e + 1"] e by simp
  qed
qed

lemma fexp_ge: "- 1074 \<le> fexp x"
  by (simp add: fexp_def)

lemma fl_mantissa:
  assumes "x \<noteq> 0"
  shows "\<bar>rhe (x / 2 powi fexp x)\<bar> \<le> 2 ^ 53"
proof -
  have pos: "0 < \<bar>x\<bar>" using assms by simp
  have "\<bar>x\<bar> < 2 powi (ilog2 \<bar>x\<bar> + 1)" by (rule ilog2_bounds(2)[OF pos])
  also have "\<dots> \<le> 2 powi (fexp x + 53)" by (intro powi2_mono) (simp add: fexp_def)
  also have "\<dots> = 2 ^ 53 * 2 powi fexp x" by (simp add: power_int_add)
  finally have "\<bar>x\<bar> / 2 powi fexp x < 2 ^ 53" by (simp add: pos_divide_less_eq)
  then have "\<bar>x / 2 powi fexp x\<bar> \<le> of_int (2 ^ 53)" by (simp add: abs_divide)
  then show ?thesis by (rule rhe_bound)
qed

lemma fl_idem: "fl (fl x) = fl x"
proof (cases "x = 0")
  case True
  then show ?thesis by simp
next
  case False
  have "fl x = of_int (rhe (x / 2 powi fexp x)) * 2 powi fexp x"
    using False by (simp add: fl_def rnd_at_def)
  then show ?thesis using fl_exact_le[OF fl_mantissa[OF False] fexp_ge[of x]] by simp
qed

lemma fl_times4:
  assumes x: "0 < x" and n: "- 1022 \<le> ilog2 x"
  shows "fl (4 * x) = 4 * fl x"
proof -
  have "ilog2 (4 * x) = ilog2 x + 2"
  proof (rule ilog2_unique)
    show "0 < 4 * x" using x by simp
    have "(2::rat) powi (ilog2 x + 2) = 4 * 2 powi (ilog2 x)" by (simp add: power_int_add)
    then show "2 powi (ilog2 x + 2) \<le> 4 * x" using ilog2_bounds(1)[OF x] by simp
    have "(2::rat) powi (ilog2 x + 2 + 1) = 4 * 2 powi (ilog2 x + 1)" by (simp add: power_int_add)
    then show "4 * x < 2 powi (ilog2 x + 2 + 1)" using ilog2_bounds(2)[OF x] by simp
  qed
  then have e: "fexp (4 * x) = fexp x + 2" using x n by (simp add: fexp_def)
  have "(2::rat) powi (fexp x + 2) = 4 * 2 powi fexp x" by (simp add: power_int_add)
  then have "rnd_at (fexp x + 2) (4 * x) = 4 * rnd_at (fexp x) x"
    by (simp add: rnd_at_def)
  then show ?thesis using x by (simp add: fl_def e)
qed

lemma powi2_le_imp: "(2::rat) powi a \<le> 2 powi b \<Longrightarrow> a \<le> b"
proof (rule ccontr)
  assume le: "(2::rat) powi a \<le> 2 powi b" and "\<not> a \<le> b"
  then have "b + 1 \<le> a" by simp
  then have "(2::rat) powi (b + 1) \<le> 2 powi a" by (rule powi2_mono)
  then have "(2::rat) powi (b + 1) \<le> 2 powi b" using le by simp
  then show False by (simp add: power_int_add)
qed

lemma fl_err:
  assumes x: "0 \<le> x" "x \<le> 2 powi k" and k: "- 1022 \<le> k"
  shows "\<bar>fl x - x\<bar> \<le> 2 powi (k - 53)"
proof (cases "x = 0")
  case True
  then show ?thesis by simp
next
  case False
  then have pos: "0 < x" using x by simp
  have "(2::rat) powi (ilog2 x) \<le> 2 powi k" using ilog2_bounds(1)[OF pos] x(2) by simp
  then have "ilog2 x \<le> k" by (rule powi2_le_imp)
  then have e: "fexp x \<le> k - 52" using pos k by (simp add: fexp_def)
  let ?e = "fexp x"
  have p: "(0::rat) < 2 powi ?e" by simp
  have "fl x - x = (of_int (rhe (x / 2 powi ?e)) - x / 2 powi ?e) * 2 powi ?e"
    using pos by (simp add: fl_def rnd_at_def algebra_simps)
  then have "\<bar>fl x - x\<bar> = \<bar>of_int (rhe (x / 2 powi ?e)) - x / 2 powi ?e\<bar> * 2 powi ?e"
    by (simp add: abs_mult)
  also have "\<dots> \<le> 1 / 2 * 2 powi ?e"
    by (intro mult_right_mono rhe_err) simp
  also have "\<dots> = 2 powi (?e - 1)" by (simp add: power_int_diff)
  also have "\<dots> \<le> 2 powi (k - 53)" using e by (intro powi2_mono) simp
  finally show ?thesis .
qed

lemma fl_err_unit: "0 \<le> x \<Longrightarrow> x \<le> 1 \<Longrightarrow> \<bar>fl x - x\<bar> \<le> 1 / 2 ^ 53"
  using fl_err[of x 0] by (simp add: power_int_minus divide_simps)

lemma fl_err_512: "0 \<le> x \<Longrightarrow> x \<le> 512 \<Longrightarrow> \<bar>fl x - x\<bar> \<le> 1 / 2 ^ 44"
  using fl_err[of x 9] by (simp add: power_int_minus divide_simps)

lemma fl_unit: "0 \<le> x \<Longrightarrow> x \<le> 1 \<Longrightarrow> 0 \<le> fl x \<and> fl x \<le> 1"
  using fl_nonneg[of x] fl_mono[of x 1] by simp

lemma fl_le_int: "0 \<le> x \<Longrightarrow> x \<le> of_int n \<Longrightarrow> \<bar>n\<bar> < 2 ^ 53 \<Longrightarrow> fl x \<le> of_int n"
  using fl_mono[of x "of_int n"] by (simp add: fl_of_int)

section \<open>Properties of the arithmetic operations\<close>

lemma not_overflows: "0 \<le> x \<Longrightarrow> x \<le> 2 ^ k \<Longrightarrow> k < 1024 \<Longrightarrow> \<not> overflows x"
proof -
  assume x: "0 \<le> x" "x \<le> 2 ^ k" and k: "k < 1024"
  have "(2::rat) ^ k < 2 ^ 1024" using k by (intro power_strict_increasing) simp_all
  then show ?thesis using x unfolding overflows_def by linarith
qed

lemma to_float_small: "\<bar>k\<bar> < 2 ^ 53 \<Longrightarrow> to_float k = Inr (of_int k)"
proof -
  assume k: "\<bar>k\<bar> < 2 ^ 53"
  have "\<bar>of_int k :: rat\<bar> < of_int (2 ^ 53)" using k by (simp only: of_int_less_iff flip: of_int_abs)
  also have "\<dots> < 2 ^ 1024" by simp
  finally have "\<not> overflows (of_int k)" by (simp add: overflows_def)
  then show ?thesis using k by (simp add: to_float_def fl_of_int)
qed

lemma int_times_small: "\<bar>k\<bar> < 2 ^ 53 \<Longrightarrow> int_times k x = Inr (fl (of_int k * x))"
  by (simp add: int_times_def to_float_small ebind_def)

lemma int_minus_small: "\<bar>k\<bar> < 2 ^ 53 \<Longrightarrow> int_minus k x = Inr (fl (of_int k - x))"
  by (simp add: int_minus_def to_float_small ebind_def)

lemma py_int_nonneg: "0 \<le> x \<Longrightarrow> x \<le> 2 ^ k \<Longrightarrow> k < 1024 \<Longrightarrow> py_int x = Inr \<lfloor>x\<rfloor>"
  using not_overflows[of x k] by (simp add: py_int_def)

lemma truediv_unit:
  assumes "0 \<le> a" "a \<le> b" "0 < b"
  shows "truediv a b = Inr (fl (of_int a / of_int b))"
    and "0 \<le> fl (of_int a / of_int b)" and "fl (of_int a / of_int b) \<le> 1"
proof -
  let ?q = "(of_int a :: rat) / of_int b"
  have q0: "0 \<le> ?q" using assms by simp
  have q1: "?q \<le> 1" using assms by simp
  show a: "0 \<le> fl ?q" by (rule fl_nonneg[OF q0])
  show b: "fl ?q \<le> 1" using fl_mono[OF q0 q1] by simp
  have "\<not> overflows (fl ?q)" using not_overflows[of "fl ?q" 0] a b by simp
  then show "truediv a b = Inr (fl ?q)" using assms by (simp add: truediv_def)
qed

lemma truediv_128:
  assumes "0 \<le> sz" "sz \<le> 2 ^ 1000"
  shows "truediv sz 128 = Inr (fl (of_int sz / 128))"
    and "0 \<le> fl (of_int sz / 128)" and "fl (of_int sz / 128) \<le> 2 ^ 1000"
proof -
  let ?q = "(of_int sz :: rat) / 128"
  have q0: "0 \<le> ?q" using assms by simp
  have "(of_int sz :: rat) \<le> of_int (2 ^ 1000)" using assms(2) by (simp only: of_int_le_iff)
  then have q1: "?q \<le> 2 ^ 1000" by simp
  show a: "0 \<le> fl ?q" by (rule fl_nonneg[OF q0])
  show b: "fl ?q \<le> 2 ^ 1000" by (rule fl_le_pow2[OF q0 q1])
  have "\<not> overflows (fl ?q)" using not_overflows[OF a b] by simp
  then show "truediv sz 128 = Inr (fl ?q)" by (simp add: truediv_def)
qed

lemma scaled_ok:
  assumes k: "0 \<le> k" "k \<le> 64" and s: "0 \<le> s" "s \<le> 2 ^ 1000"
  shows "scaled k s = Inr \<lfloor>fl (of_int k * s)\<rfloor>"
proof -
  have p0: "0 \<le> of_int k * s" using k s by simp
  have "of_int k * s \<le> 64 * 2 ^ 1000"
    using k s by (intro mult_mono) simp_all
  then have p1: "of_int k * s \<le> 2 ^ 1006" by simp
  have "py_int (fl (of_int k * s)) = Inr \<lfloor>fl (of_int k * s)\<rfloor>"
    using fl_nonneg[OF p0] fl_le_pow2[OF p0 p1] by (intro py_int_nonneg[of _ 1006]) simp_all
  moreover have "\<bar>k\<bar> < 2 ^ 53" using k by simp
  ultimately show ?thesis by (simp add: scaled_def int_times_small ebind_def)
qed

lemma sc_eq:
  assumes "0 \<le> sz" "sz \<le> 2 ^ 1000" "0 \<le> k" "k \<le> 64"
  shows "sc sz k = \<lfloor>fl (of_int k * fl (of_int sz / 128))\<rfloor>"
  using truediv_128[OF assms(1,2)] scaled_ok[OF assms(3,4), of "fl (of_int sz / 128)"]
  by (simp add: sc_def ebind_def outr_def)

lemma sc_nonneg:
  assumes "0 \<le> sz" "sz \<le> 2 ^ 1000" "0 \<le> k" "k \<le> 64"
  shows "0 \<le> sc sz k"
proof -
  have "0 \<le> of_int k * fl (of_int sz / 128)"
    using truediv_128(2)[OF assms(1,2)] assms(3) by simp
  then have "0 \<le> fl (of_int k * fl (of_int sz / 128))" by (rule fl_nonneg)
  then show ?thesis by (simp add: sc_eq[OF assms])
qed

lemma sc_mono:
  assumes "0 \<le> sz" "sz \<le> 2 ^ 1000" "0 \<le> k" "k \<le> k'" "k' \<le> 64"
  shows "sc sz k \<le> sc sz k'"
proof -
  let ?s = "fl (of_int sz / 128)"
  have s: "0 \<le> ?s" by (rule truediv_128(2)[OF assms(1,2)])
  have "of_int k * ?s \<le> of_int k' * ?s" using assms(4) s by (intro mult_right_mono) simp_all
  moreover have "0 \<le> of_int k * ?s" using assms(3) s by simp
  ultimately have "fl (of_int k * ?s) \<le> fl (of_int k' * ?s)" by (intro fl_mono)
  then have "\<lfloor>fl (of_int k * ?s)\<rfloor> \<le> \<lfloor>fl (of_int k' * ?s)\<rfloor>" by (rule floor_mono)
  then show ?thesis using assms by (simp add: sc_eq)
qed


lemma err_chain:
  fixes v a b p t p0 :: rat
  assumes "\<bar>v - (a + b)\<bar> \<le> 1 / 2 ^ 44" "\<bar>a - p\<bar> \<le> 1 / 2 ^ 44" "\<bar>b - t\<bar> \<le> 1 / 2 ^ 44"
    "\<bar>p - p0\<bar> \<le> 255 / 2 ^ 53"
  shows "\<bar>v - (p0 + t)\<bar> \<le> 1 / 2 ^ 42"
proof -
  have "\<bar>v - (p0 + t)\<bar> \<le> \<bar>v - (a + b)\<bar> + \<bar>a - p\<bar> + \<bar>b - t\<bar> + \<bar>p - p0\<bar>" by linarith
  also have "\<dots> \<le> 1 / 2 ^ 44 + 1 / 2 ^ 44 + 1 / 2 ^ 44 + 255 / 2 ^ 53"
    by (intro add_mono assms)
  also have "\<dots> \<le> 1 / 2 ^ 42" by simp
  finally show ?thesis .
qed

text \<open>
  The interpolation \<^verbatim>\<open>int(c1 * (1 - ratio) + c2 * ratio)\<close> on colour channels: it never raises,
  and the float it truncates is within \<open>2\<^sup>-\<^sup>4\<^sup>2\<close> of the exact value.
\<close>

lemma interp_value:
  assumes c: "0 \<le> c1" "c1 \<le> 255" "0 \<le> c2" "c2 \<le> 255" and r: "0 \<le> r" "r \<le> 1"
  shows "\<exists>v. interp c1 c2 r = Inr \<lfloor>v\<rfloor> \<and> 0 \<le> v
            \<and> \<bar>v - (of_int c1 * (1 - r) + of_int c2 * r)\<bar> \<le> 1 / 2 ^ 42"
proof -
  let ?q = "fl (1 - r)"
  let ?a = "fl (of_int c1 * ?q)"
  let ?b = "fl (of_int c2 * r)"
  let ?v = "fl (?a + ?b)"
  have k1: "\<bar>c1\<bar> < 2 ^ 53" and k2: "\<bar>c2\<bar> < 2 ^ 53" using c by simp_all
  have C1: "(0::rat) \<le> of_int c1" "(of_int c1 :: rat) \<le> 255"
    and C2: "(0::rat) \<le> of_int c2" "(of_int c2 :: rat) \<le> 255"
    using c by simp_all
  have q: "0 \<le> ?q" "?q \<le> 1" using fl_unit[of "1 - r"] r by simp_all
  have qe: "\<bar>?q - (1 - r)\<bar> \<le> 1 / 2 ^ 53" using fl_err_unit[of "1 - r"] r by simp
  have p1: "0 \<le> of_int c1 * ?q" using C1 q by simp
  have p1u: "of_int c1 * ?q \<le> 255" using mult_mono[OF C1(2) q(2)] C1 q by simp
  have a: "0 \<le> ?a" "?a \<le> 255"
    using fl_nonneg[OF p1] fl_le_int[of "of_int c1 * ?q" 255] p1 p1u by simp_all
  have ae: "\<bar>?a - of_int c1 * ?q\<bar> \<le> 1 / 2 ^ 44" using fl_err_512[OF p1] p1u by simp
  have p2: "0 \<le> of_int c2 * r" using C2 r by simp
  have p2u: "of_int c2 * r \<le> 255" using mult_mono[OF C2(2) r(2)] C2 r by simp
  have b: "0 \<le> ?b" "?b \<le> 255"
    using fl_nonneg[OF p2] fl_le_int[of "of_int c2 * r" 255] p2 p2u by simp_all
  have be: "\<bar>?b - of_int c2 * r\<bar> \<le> 1 / 2 ^ 44" using fl_err_512[OF p2] p2u by simp
  have s0: "0 \<le> ?a + ?b" and su: "?a + ?b \<le> 512" using a b by simp_all
  have v0: "0 \<le> ?v" by (rule fl_nonneg[OF s0])
  have vu: "?v \<le> 2 ^ 9" using fl_le_pow2[of "?a + ?b" 9] s0 su by simp
  have ve: "\<bar>?v - (?a + ?b)\<bar> \<le> 1 / 2 ^ 44" by (rule fl_err_512[OF s0 su])
  have "\<bar>of_int c1 * ?q - of_int c1 * (1 - r)\<bar> = of_int c1 * \<bar>?q - (1 - r)\<bar>"
    using C1 by (simp add: abs_mult flip: right_diff_distrib)
  also have "\<dots> \<le> 255 * (1 / 2 ^ 53)" by (intro mult_mono C1 qe) simp_all
  finally have ce: "\<bar>of_int c1 * ?q - of_int c1 * (1 - r)\<bar> \<le> 255 / 2 ^ 53" by simp
  have err: "\<bar>?v - (of_int c1 * (1 - r) + of_int c2 * r)\<bar> \<le> 1 / 2 ^ 42"
    by (rule err_chain[OF ve ae be ce])
  have "py_int ?v = Inr \<lfloor>?v\<rfloor>" using py_int_nonneg[OF v0 vu] by simp
  then have "interp c1 c2 r = Inr \<lfloor>?v\<rfloor>"
    by (simp add: interp_def int_minus_small int_times_small[OF k1] int_times_small[OF k2]
        float_plus_def ebind_def)
  then show ?thesis using v0 err by blast
qed

section \<open>Rows of the gradient and of the highlight\<close>

lemma lerp_diff:
  fixes a b r t :: rat
  shows "(a * (1 - r) + b * r) - (a * (1 - t) + b * t) = (b - a) * (r - t)"
  by (simp add: algebra_simps)

lemma near_lt:
  fixes v E :: rat
  assumes "\<bar>v - E\<bar> \<le> 1 / 2 ^ 41" "E \<le> 255"
  shows "v < 256"
proof -
  have "(1::rat) / 2 ^ 41 < 1" by simp
  then show ?thesis using assms by linarith
qed

lemma near_floor:
  fixes v E :: rat
  assumes "\<bar>v - E\<bar> \<le> 1 / 2 ^ 41"
  shows "\<bar>\<lfloor>v\<rfloor> - \<lfloor>E\<rfloor>\<bar> \<le> 1"
proof -
  have "(1::rat) / 2 ^ 41 < 1" by simp
  then have "E - 1 \<le> v" "v \<le> E + 1" using assms by linarith+
  then have a: "E - 1 \<le> v" and b: "v \<le> E + 1" by simp_all
  have "\<lfloor>E - 1\<rfloor> \<le> \<lfloor>v\<rfloor>" by (rule floor_mono[OF a])
  moreover have "\<lfloor>v\<rfloor> \<le> \<lfloor>E + 1\<rfloor>" by (rule floor_mono[OF b])
  ultimately show ?thesis by simp
qed

lemma gradient_channel:
  assumes c: "0 \<le> c1" "c1 \<le> 255" "0 \<le> c2" "c2 \<le> 255" and y: "0 \<le> y" "y < sz"
  shows "\<exists>v::rat. ebind (truediv y sz) (interp c1 c2) = Inr \<lfloor>v\<rfloor> \<and> 0 \<le> v
          \<and> \<bar>v - (of_int c1 * (1 - of_int y / of_int sz) + of_int c2 * (of_int y / of_int sz))\<bar> \<le> 1 / 2 ^ 41"
proof -
  let ?t = "(of_int y :: rat) / of_int sz"
  let ?r = "fl ?t"
  have sz: "0 < sz" using y by simp
  have t: "0 \<le> ?t" "?t \<le> 1" using y by simp_all
  have td: "truediv y sz = Inr ?r" and r: "0 \<le> ?r" "?r \<le> 1"
    using truediv_unit[of y sz] y by simp_all
  have re: "\<bar>?r - ?t\<bar> \<le> 1 / 2 ^ 53" by (rule fl_err_unit[OF t])
  obtain v where v: "interp c1 c2 ?r = Inr \<lfloor>v\<rfloor>" "0 \<le> v"
    and ve: "\<bar>v - (of_int c1 * (1 - ?r) + of_int c2 * ?r)\<bar> \<le> 1 / 2 ^ 42"
    using interp_value[OF c r] by blast
  have C: "\<bar>(of_int c2 :: rat) - of_int c1\<bar> \<le> 255" using c by (simp add: abs_le_iff)
  have "(of_int c1 * (1 - ?r) + of_int c2 * ?r) - (of_int c1 * (1 - ?t) + of_int c2 * ?t)
        = ((of_int c2 :: rat) - of_int c1) * (?r - ?t)"
    by (rule lerp_diff)
  then have "\<bar>(of_int c1 * (1 - ?r) + of_int c2 * ?r) - (of_int c1 * (1 - ?t) + of_int c2 * ?t)\<bar>
        = \<bar>(of_int c2 :: rat) - of_int c1\<bar> * \<bar>?r - ?t\<bar>"
    by (simp only: abs_mult)
  also have "\<dots> \<le> 255 * (1 / 2 ^ 53)" by (intro mult_mono C re) simp_all
  finally have d: "\<bar>(of_int c1 * (1 - ?r) + of_int c2 * ?r) - (of_int c1 * (1 - ?t) + of_int c2 * ?t)\<bar>
        \<le> 255 / 2 ^ 53" by simp
  have "\<bar>v - (of_int c1 * (1 - ?t) + of_int c2 * ?t)\<bar>
        \<le> \<bar>v - (of_int c1 * (1 - ?r) + of_int c2 * ?r)\<bar>
          + \<bar>(of_int c1 * (1 - ?r) + of_int c2 * ?r) - (of_int c1 * (1 - ?t) + of_int c2 * ?t)\<bar>"
    by linarith
  also have "\<dots> \<le> 1 / 2 ^ 42 + 255 / 2 ^ 53" by (intro add_mono ve d)
  also have "\<dots> \<le> 1 / 2 ^ 41" by simp
  finally have "\<bar>v - (of_int c1 * (1 - ?t) + of_int c2 * ?t)\<bar> \<le> 1 / 2 ^ 41" .
  then show ?thesis using v td by (auto simp: ebind_def)
qed

lemma convex_bounds:
  fixes a b t :: rat
  assumes "0 \<le> t" "t \<le> 1"
  shows "min a b \<le> a * (1 - t) + b * t" and "a * (1 - t) + b * t \<le> max a b"
proof -
  have e: "a * (1 - t) + b * t = a + (b - a) * t" by (simp add: algebra_simps)
  show "min a b \<le> a * (1 - t) + b * t"
  proof (cases "a \<le> b")
    case True
    then have "0 \<le> (b - a) * t" using assms by simp
    then show ?thesis using True by (simp add: e)
  next
    case False
    then have "(a - b) * t \<le> (a - b) * 1" using assms by (intro mult_left_mono) simp_all
    then show ?thesis using False by (simp add: e algebra_simps)
  qed
  show "a * (1 - t) + b * t \<le> max a b"
  proof (cases "a \<le> b")
    case True
    then have "(b - a) * t \<le> (b - a) * 1" using assms by (intro mult_left_mono) simp_all
    then show ?thesis using True by (simp add: e algebra_simps)
  next
    case False
    then have "0 \<le> (a - b) * t" using assms by simp
    then show ?thesis using False by (simp add: e algebra_simps)
  qed
qed

lemma gradient_value_range:
  assumes c: "0 \<le> c1" "c1 \<le> 255" "0 \<le> c2" "c2 \<le> 255" and y: "0 \<le> y" "y < sz"
  shows "ebind (truediv y sz) (interp c1 c2) = Inr (gradient_value sz c1 c2 y)"
    and "0 \<le> gradient_value sz c1 c2 y" and "gradient_value sz c1 c2 y \<le> 255"
proof -
  let ?t = "(of_int y :: rat) / of_int sz"
  let ?E = "of_int c1 * (1 - ?t) + of_int c2 * ?t"
  obtain v where v: "ebind (truediv y sz) (interp c1 c2) = Inr \<lfloor>v\<rfloor>" "0 \<le> v"
    and ve: "\<bar>v - ?E\<bar> \<le> 1 / 2 ^ 41"
    using gradient_channel[OF c y] by blast
  have g: "gradient_value sz c1 c2 y = \<lfloor>v\<rfloor>" by (simp add: gradient_value_def v outr_def)
  show "ebind (truediv y sz) (interp c1 c2) = Inr (gradient_value sz c1 c2 y)" by (simp add: g v)
  show "0 \<le> gradient_value sz c1 c2 y" using v(2) by (simp add: g)
  have t: "0 \<le> ?t" "?t \<le> 1" using y by simp_all
  have "?E \<le> max (of_int c1) (of_int c2)" by (rule convex_bounds(2)[OF t])
  also have "\<dots> \<le> 255" using c by simp
  finally have "?E \<le> 255" .
  then have "v < 256" by (rule near_lt[OF ve])
  then have "\<lfloor>v\<rfloor> < 256" by (simp add: floor_less_iff)
  then show "gradient_value sz c1 c2 y \<le> 255" by (simp add: g)
qed

text \<open>The computed row value is within one unit of the exact interpolation, rounded down.\<close>

lemma gradient_value_near:
  assumes c: "0 \<le> c1" "c1 \<le> 255" "0 \<le> c2" "c2 \<le> 255" and y: "0 \<le> y" "y < sz"
  shows "\<bar>gradient_value sz c1 c2 y - (c1 * (sz - y) + c2 * y) div sz\<bar> \<le> 1"
proof -
  let ?t = "(of_int y :: rat) / of_int sz"
  let ?E = "of_int c1 * (1 - ?t) + of_int c2 * ?t"
  have sz: "0 < sz" using y by simp
  obtain v where v: "ebind (truediv y sz) (interp c1 c2) = Inr \<lfloor>v\<rfloor>" "0 \<le> v"
    and ve: "\<bar>v - ?E\<bar> \<le> 1 / 2 ^ 41"
    using gradient_channel[OF c y] by blast
  have g: "gradient_value sz c1 c2 y = \<lfloor>v\<rfloor>" by (simp add: gradient_value_def v outr_def)
  have E: "?E = of_int (c1 * (sz - y) + c2 * y) / of_int sz"
    using sz by (simp add: field_simps)
  have fE: "\<lfloor>?E\<rfloor> = (c1 * (sz - y) + c2 * y) div sz"
    unfolding E by (rule floor_divide_of_int_eq)
  show ?thesis using near_floor[OF ve] unfolding g fE .
qed

lemma gradient_value_top:
  assumes c: "0 \<le> c1" "c1 \<le> 255" "0 \<le> c2" "c2 \<le> 255" and sz: "0 < sz"
  shows "gradient_value sz c1 c2 0 = c1"
proof -
  have k1: "\<bar>c1\<bar> < 2 ^ 53" and k2: "\<bar>c2\<bar> < 2 ^ 53" using c by simp_all
  have td: "truediv 0 sz = Inr 0" using sz by (simp add: truediv_def overflows_def)
  have f: "fl (of_int c1) = of_int c1" by (rule fl_of_int[OF k1])
  have "\<not> overflows (of_int c1)" using not_overflows[of "of_int c1" 8] c by simp
  then have "interp c1 c2 0 = Inr c1"
    by (simp add: interp_def int_minus_small int_times_small[OF k1] int_times_small[OF k2]
        float_plus_def ebind_def f py_int_def)
  then show ?thesis by (simp add: gradient_value_def td ebind_def outr_def)
qed

lemma gradient_color_ok:
  assumes c: "0 \<le> fst c1" "fst c1 \<le> 255" "0 \<le> fst (snd c1)" "fst (snd c1) \<le> 255"
      "0 \<le> snd (snd c1)" "snd (snd c1) \<le> 255"
      "0 \<le> fst c2" "fst c2 \<le> 255" "0 \<le> fst (snd c2)" "fst (snd c2) \<le> 255"
      "0 \<le> snd (snd c2)" "snd (snd c2) \<le> 255"
    and y: "0 \<le> y" "y < sz"
  shows "gradient_color sz c1 c2 y =
           Inr (CRGBA (gradient_value sz (fst c1) (fst c2) y)
                      (gradient_value sz (fst (snd c1)) (fst (snd c2)) y)
                      (gradient_value sz (snd (snd c1)) (snd (snd c2)) y) 255)"
proof -
  have td: "truediv y sz = Inr (fl (of_int y / of_int sz))" using truediv_unit(1)[of y sz] y by simp
  note r = gradient_value_range(1)[OF c(1,2,7,8) y]
  note g = gradient_value_range(1)[OF c(3,4,9,10) y]
  note b = gradient_value_range(1)[OF c(5,6,11,12) y]
  show ?thesis using r g b unfolding gradient_color_def td by (simp add: ebind_def)
qed

lemma highlight_alpha_value:
  assumes "0 \<le> y" "y < sz div 3"
  shows "highlight_alpha sz y = Inr \<lfloor>fl (80 * fl (1 - fl (of_int y / of_int (sz div 3))))\<rfloor>"
    and "0 \<le> fl (80 * fl (1 - fl (of_int y / of_int (sz div 3))))"
    and "fl (80 * fl (1 - fl (of_int y / of_int (sz div 3)))) \<le> 80"
proof -
  let ?r = "fl (of_int y / of_int (sz div 3))"
  let ?d = "fl (1 - ?r)"
  let ?x = "fl (80 * ?d)"
  have td: "truediv y (sz div 3) = Inr ?r" and r: "0 \<le> ?r" "?r \<le> 1"
    using truediv_unit[of y "sz div 3"] assms by simp_all
  have d: "0 \<le> ?d" "?d \<le> 1" using fl_unit[of "1 - ?r"] r by simp_all
  have p: "0 \<le> 80 * ?d" "80 * ?d \<le> of_int 80" using d by simp_all
  show x0: "0 \<le> ?x" by (rule fl_nonneg[OF p(1)])
  show xu: "?x \<le> 80" using fl_le_int[OF p] by simp
  have "?x \<le> 2 ^ 7" using xu by simp
  then have "py_int ?x = Inr \<lfloor>?x\<rfloor>" using py_int_nonneg[OF x0, of 7] by simp
  then show "highlight_alpha sz y = Inr \<lfloor>?x\<rfloor>"
    by (simp add: highlight_alpha_def td int_minus_small int_times_small ebind_def)
qed

lemma hl_alpha_range:
  assumes "0 \<le> y" "y < sz div 3"
  shows "highlight_alpha sz y = Inr (hl_alpha sz y)" and "0 \<le> hl_alpha sz y" and "hl_alpha sz y \<le> 80"
proof -
  note h = highlight_alpha_value[OF assms]
  show "highlight_alpha sz y = Inr (hl_alpha sz y)" by (simp add: hl_alpha_def h(1) outr_def)
  show "0 \<le> hl_alpha sz y" using h(2) by (simp add: hl_alpha_def h(1) outr_def)
  have "\<lfloor>fl (80 * fl (1 - fl (of_int y / of_int (sz div 3))))\<rfloor> \<le> \<lfloor>80 :: rat\<rfloor>"
    by (rule floor_mono[OF h(3)])
  then show "hl_alpha sz y \<le> 80" by (simp add: hl_alpha_def h(1) outr_def)
qed

lemma hl_alpha_top:
  assumes "0 < sz div 3"
  shows "hl_alpha sz 0 = 80"
proof -
  have "fl 80 = 80" using fl_of_int[of 80] by simp
  then show ?thesis using highlight_alpha_value(1)[of 0 sz] assms
    by (simp add: hl_alpha_def outr_def)
qed

lemma hl_alpha_mono:
  assumes "0 \<le> y" "y \<le> y'" "y' < sz div 3"
  shows "hl_alpha sz y' \<le> hl_alpha sz y"
proof -
  let ?n = "(of_int (sz div 3) :: rat)"
  have n: "0 < ?n" using assms by simp
  have y1: "0 \<le> y'" "y < sz div 3" using assms by simp_all
  have t: "0 \<le> of_int y / ?n" "of_int y / ?n \<le> of_int y' / ?n" "of_int y' / ?n \<le> 1"
    using assms n by (simp_all add: divide_right_mono)
  have r: "fl (of_int y / ?n) \<le> fl (of_int y' / ?n)" by (rule fl_mono[OF t(1,2)])
  have r1: "fl (of_int y' / ?n) \<le> 1" using fl_mono[of "of_int y' / ?n" 1] t by simp
  have "fl (1 - fl (of_int y' / ?n)) \<le> fl (1 - fl (of_int y / ?n))"
    using r r1 by (intro fl_mono) simp_all
  moreover have "0 \<le> fl (1 - fl (of_int y' / ?n))" using r1 by (intro fl_nonneg) simp
  ultimately have "fl (80 * fl (1 - fl (of_int y' / ?n))) \<le> fl (80 * fl (1 - fl (of_int y / ?n)))"
    by (intro fl_mono) simp_all
  then have "\<lfloor>fl (80 * fl (1 - fl (of_int y' / ?n)))\<rfloor> \<le> \<lfloor>fl (80 * fl (1 - fl (of_int y / ?n)))\<rfloor>"
    by (rule floor_mono)
  then show ?thesis
    using highlight_alpha_value(1)[OF assms(1) y1(2)] highlight_alpha_value(1)[OF y1(1) assms(3)]
    by (simp add: hl_alpha_def outr_def)
qed

lemma highlight_color_ok:
  assumes "0 \<le> y" "y < sz div 3"
  shows "highlight_color sz y = Inr (CRGBA 255 255 255 (hl_alpha sz y))"
  using hl_alpha_range(1)[OF assms] by (simp add: highlight_color_def ebind_def)

section \<open>Running statements\<close>

lemma py_bindE:
  assumes "py_bind m f w = (Inr y, w')"
  obtains x w1 where "m w = (Inr x, w1)" and "f x w1 = (Inr y, w')"
  using assms by (auto simp: py_bind_def split: prod.splits sum.splits)

lemma py_bindI: "m w = (Inr x, w1) \<Longrightarrow> f x w1 = r \<Longrightarrow> py_bind m f w = r"
  by (simp add: py_bind_def)

lemma liftE:
  assumes "lift r w = (Inr x, w')"
  obtains "r = Inr x" and "w' = w"
  using assms by (auto simp: lift_def)

lemma py_retE:
  assumes "py_ret a w = (Inr x, w')"
  obtains "x = a" and "w' = w"
  using assms by (auto simp: py_ret_def)

lemma for_each_append:
  "for_each (xs @ ys) body = py_bind (for_each xs body) (\<lambda>_. for_each ys body)"
  by (induction xs) (auto simp: py_bind_def py_ret_def fun_eq_iff split: prod.splits sum.splits)

lemma py_range_3: "py_range 3 = [0, 1, 2]"
  by (simp add: py_range_def upt_rec)

section \<open>Painting primitives\<close>

lemma inside_paint_all [simp]: "inside (paint_all R shs ink im) p = inside im p"
  by (simp add: inside_def paint_all_def)

lemma paint_start:
  assumes "draw_shape R d sh c w = (Inr u, w')"
  shows "painted_from R d c w [sh] w'"
  using assms
  by (auto simp: draw_shape_def painted_from_def paint_all_def
      split: option.splits sum.splits if_splits)

lemma paint_step:
  assumes "painted_from R d c w0 shs w" and "draw_shape R d sh c w = (Inr u, w')"
  shows "painted_from R d c w0 (shs @ [sh]) w'"
proof -
  obtain im ink where im: "heap w0 d = Some im" and ink: "getink (im_mode im) c = Inr ink"
    and w: "w = w0\<lparr>heap := (heap w0)(d \<mapsto> paint_all R shs ink im),
               calls := calls w0 @ map (\<lambda>sh. (d, sh, c)) shs\<rparr>"
    using assms(1) unfolding painted_from_def by blast
  have m: "im_mode (paint_all R shs ink im) = im_mode im" by (simp add: paint_all_def)
  have px: "(paint_all R shs ink im)\<lparr>im_px := \<lambda>p. if inside im p \<and> covers R sh p then ink
               else im_px (paint_all R shs ink im) p\<rparr> = paint_all R (shs @ [sh]) ink im"
  proof -
    have "(\<lambda>p. if inside im p \<and> covers R sh p then ink else im_px (paint_all R shs ink im) p)
        = (\<lambda>p. if inside im p \<and> list_ex (\<lambda>sh. covers R sh p) (shs @ [sh]) then ink else im_px im p)"
      by (auto simp: paint_all_def fun_eq_iff)
    then show ?thesis by (simp add: paint_all_def)
  qed
  have "w' = w0\<lparr>heap := (heap w0)(d \<mapsto> paint_all R (shs @ [sh]) ink im),
               calls := calls w0 @ map (\<lambda>sh. (d, sh, c)) (shs @ [sh])\<rparr>"
    using assms(2) ink m px unfolding draw_shape_def w
    by (auto split: if_splits)
  then show ?thesis using im ink unfolding painted_from_def by blast
qed

lemma sc_of:
  assumes "truediv sz 128 = Inr s" "scaled k s = Inr v"
  shows "sc sz k = v"
  using assms by (simp add: sc_def ebind_def outr_def)

lemma draw_crab_painted:
  assumes "draw_crab R d sz c w = (Inr u, w')"
  shows "painted_from R d c w (crab_shapes sz) w'"
  using assms
  unfolding draw_crab_def Let_def py_range_3 for_each.simps ellipse_def rectangle_def polygon_def line_def
  apply (elim py_bindE liftE py_retE)
  apply hypsubst
  apply (drule paint_start)
  apply (drule (1) paint_step)+
  apply (simp add: crab_shapes_def crab_legs_def Let_def sc_of)
  done


lemma draw_shape_ok:
  assumes "heap w d = Some im" "getink (im_mode im) c = Inr ink" "box_ok sh"
  shows "draw_shape R d sh c w =
     (Inr (), w\<lparr>heap := (heap w)(d \<mapsto> im\<lparr>im_px := (\<lambda>p. if inside im p \<and> covers R sh p then ink else im_px im p)\<rparr>),
            calls := calls w @ [(d, sh, c)]\<rparr>)"
  using assms by (simp add: draw_shape_def)

lemma painted_from_draw:
  assumes "painted_from R d c w0 shs w" "box_ok sh"
  shows "\<exists>w'. draw_shape R d sh c w = (Inr (), w') \<and> painted_from R d c w0 (shs @ [sh]) w'"
proof -
  obtain im ink where im: "heap w0 d = Some im" and ink: "getink (im_mode im) c = Inr ink"
    and w: "w = w0\<lparr>heap := (heap w0)(d \<mapsto> paint_all R shs ink im),
               calls := calls w0 @ map (\<lambda>sh. (d, sh, c)) shs\<rparr>"
    using assms(1) unfolding painted_from_def by blast
  have h: "heap w d = Some (paint_all R shs ink im)" by (simp add: w)
  have m: "getink (im_mode (paint_all R shs ink im)) c = Inr ink" using ink by (simp add: paint_all_def)
  from draw_shape_ok[OF h m assms(2)] obtain w' where r: "draw_shape R d sh c w = (Inr (), w')" by blast
  show ?thesis using r paint_step[OF assms(1) r] by blast
qed

lemma painted_from_refl:
  assumes "heap w d = Some im" "getink (im_mode im) c = Inr ink"
  shows "painted_from R d c w [] w"
proof -
  have "paint_all R [] ink im = im" by (simp add: paint_all_def)
  then have "w = w\<lparr>heap := (heap w)(d \<mapsto> paint_all R [] ink im), calls := calls w @ map (\<lambda>sh. (d, sh, c)) []\<rparr>"
    using assms(1) by (simp add: fun_upd_idem)
  then show ?thesis using assms unfolding painted_from_def by blast
qed

lemma sc_run:
  assumes "0 \<le> sz" "sz \<le> 2 ^ 1000" "0 \<le> k" "k \<le> 64"
  shows "scaled k (fl (of_int sz / 128)) = Inr (sc sz k)"
  using scaled_ok[OF assms(3,4) truediv_128(2,3)[OF assms(1,2)]] sc_eq[OF assms] by simp

lemma bind_draw:
  assumes "painted_from R d c w0 shs w" "box_ok sh"
    and "\<And>w1. painted_from R d c w0 (shs @ [sh]) w1 \<Longrightarrow> \<exists>w'. f () w1 = (Inr (), w')"
  shows "\<exists>w'. py_bind (draw_shape R d sh c) f w = (Inr (), w')"
proof -
  obtain w1 where a: "draw_shape R d sh c w = (Inr (), w1)" and b: "painted_from R d c w0 (shs @ [sh]) w1"
    using painted_from_draw[OF assms(1,2)] by blast
  obtain w' where "f () w1 = (Inr (), w')" using assms(3)[OF b] by blast
  then show ?thesis using a by (auto simp: py_bind_def)
qed

lemma last_draw:
  assumes "painted_from R d c w0 shs w" "box_ok sh"
  shows "\<exists>w'. draw_shape R d sh c w = (Inr (), w')"
  using painted_from_draw[OF assms] by blast

lemma py_bind_assoc: "py_bind (py_bind m f) g = py_bind m (\<lambda>x. py_bind (f x) g)"
  by (auto simp: py_bind_def fun_eq_iff split: prod.splits sum.splits)

lemma bind_lift: "py_bind (lift (Inr x)) f = f x"
  by (simp add: py_bind_def lift_def fun_eq_iff)

lemma draw_crab_returns:
  assumes sz: "0 \<le> sz" "sz \<le> 2 ^ 1000"
    and im: "heap w d = Some im" "getink (im_mode im) c = Inr ink"
  shows "\<exists>w'. draw_crab R d sz c w = (Inr (), w')"
proof -
  note v = sc_run[OF sz] 
  note n = sc_nonneg[OF sz]
  have le: "sc sz 5 \<le> sc sz 15" by (rule sc_mono[OF sz]) simp_all
  have n': "0 \<le> sc sz 40" "0 \<le> sc sz 28" "0 \<le> sc sz 3" "0 \<le> sc sz 6" "0 \<le> sc sz 20" "0 \<le> sc sz 15"
    by (rule n; simp)+
  have d3: "0 \<le> sc sz 3 div 2" "0 \<le> sc sz 20 div 2" "0 \<le> sc sz 15 div 2" using n' by simp_all
  show ?thesis
    unfolding draw_crab_def Let_def py_range_3 for_each.simps ellipse_def rectangle_def polygon_def line_def
    apply (simp add: bind_lift py_bind_assoc truediv_128(1)[OF sz] v)
    apply (rule bind_draw[OF painted_from_refl[OF im]], simp add: box_ok_def n')
    apply (erule bind_draw, (simp add: box_ok_def; insert n' d3 le; linarith))+
    apply (simp add: py_ret_def)
    done
qed


section \<open>Loops that paint rows\<close>

lemma py_range_Suc: "py_range (int (Suc k)) = py_range (int k) @ [int k]"
  unfolding py_range_def nat_int by simp

lemma draw_shapeE:
  assumes "draw_shape R d sh c w = (Inr u, w')"
  obtains im ink where "heap w d = Some im" "getink (im_mode im) c = Inr ink" "box_ok sh"
    "w' = w\<lparr>heap := (heap w)(d \<mapsto> im\<lparr>im_px := (\<lambda>p. if inside im p \<and> covers R sh p then ink else im_px im p)\<rparr>),
            calls := calls w @ [(d, sh, c)]\<rparr>"
  using assms by (auto simp: draw_shape_def split: option.splits sum.splits if_splits)

lemma py_range_nat: "0 \<le> n \<Longrightarrow> py_range n = py_range (int (nat n))"
  by simp

lemma py_range_neg: "n \<le> 0 \<Longrightarrow> py_range n = []"
  by (simp add: py_range_def)

lemma covers_row:
  "covers R (Line [(0, y), (sz, y)] 0) p = (snd p = y \<and> min 0 sz \<le> fst p \<and> fst p \<le> max 0 sz)"
  by (simp add: covers_def)

lemma inside_paint_rows [simp]: "inside (paint_rows sz n col im) p = inside im p"
  by (simp add: inside_def paint_rows_def)

lemma paint_rows_none: "n \<le> 0 \<Longrightarrow> paint_rows sz n col im = im"
proof -
  assume n: "n \<le> 0"
  have "(\<lambda>p. if inside im p \<and> 0 \<le> snd p \<and> snd p < n \<and> min 0 sz \<le> fst p \<and> fst p \<le> max 0 sz
             then row_ink (im_mode im) col (snd p) else im_px im p) = im_px im"
    using n by (auto simp: fun_eq_iff)
  then show ?thesis by (simp add: paint_rows_def)
qed

lemma paint_rows_Suc:
  assumes "col (int k) = Inr c" "getink (im_mode im) c = Inr ink"
  shows "(paint_rows sz (int k) col im)\<lparr>im_px := \<lambda>p.
            if inside im p \<and> covers R (Line [(0, int k), (sz, int k)] 0) p then ink
            else im_px (paint_rows sz (int k) col im) p\<rparr>
         = paint_rows sz (int (Suc k)) col im"
proof -
  have r: "row_ink (im_mode im) col (int k) = ink"
    using assms by (simp add: row_ink_def ebind_def outr_def)
  have "(\<lambda>p. if inside im p \<and> covers R (Line [(0, int k), (sz, int k)] 0) p then ink
              else im_px (paint_rows sz (int k) col im) p)
      = (\<lambda>p. if inside im p \<and> 0 \<le> snd p \<and> snd p < int (Suc k) \<and> min 0 sz \<le> fst p \<and> fst p \<le> max 0 sz
               then row_ink (im_mode im) col (snd p) else im_px im p)"
    using r by (auto simp: fun_eq_iff covers_row paint_rows_def)
  then show ?thesis by (simp add: paint_rows_def)
qed

lemma rows_effect_nat:
  assumes "for_each (py_range (int k)) (\<lambda>y. py_bind (lift (col y)) (\<lambda>c. line R d [(0, y), (sz, y)] c 0)) w = (Inr u, w')"
    and "heap w d = Some im"
  shows "w' = rows_world d sz (int k) col im w"
  using assms
proof (induction k arbitrary: u w')
  case 0
  then show ?case
    by (simp add: py_range_def py_ret_def rows_world_def paint_rows_none row_calls_def fun_upd_idem)
next
  case (Suc k)
  let ?body = "\<lambda>y. py_bind (lift (col y)) (\<lambda>c. line R d [(0, y), (sz, y)] c 0)"
  from Suc.prems(1) obtain u1 w1 where
    a: "for_each (py_range (int k)) ?body w = (Inr u1, w1)" and
    b: "for_each [int k] ?body w1 = (Inr u, w')"
    unfolding py_range_Suc for_each_append by (elim py_bindE)
  have w1: "w1 = rows_world d sz (int k) col im w" by (rule Suc.IH[OF a Suc.prems(2)])
  from b obtain c u2 where c: "col (int k) = Inr c"
    and dr: "draw_shape R d (Line [(0, int k), (sz, int k)] 0) c w1 = (Inr u2, w')"
    unfolding for_each.simps line_def by (elim py_bindE liftE py_retE) auto
  have h1: "heap w1 d = Some (paint_rows sz (int k) col im)" by (simp add: w1 rows_world_def)
  from dr obtain im1 ink where i1: "heap w1 d = Some im1" and ink1: "getink (im_mode im1) c = Inr ink"
    and w1': "w' = w1\<lparr>heap := (heap w1)(d \<mapsto> im1\<lparr>im_px := \<lambda>p.
            if inside im1 p \<and> covers R (Line [(0, int k), (sz, int k)] 0) p then ink
            else im_px im1 p\<rparr>),
          calls := calls w1 @ [(d, Line [(0, int k), (sz, int k)] 0, c)]\<rparr>"
    by (rule draw_shapeE)
  have im1: "im1 = paint_rows sz (int k) col im" using i1 h1 by simp
  have ink: "getink (im_mode im) c = Inr ink" using ink1 by (simp add: im1 paint_rows_def)
  have w': "w' = w1\<lparr>heap := (heap w1)(d \<mapsto> (paint_rows sz (int k) col im)\<lparr>im_px := \<lambda>p.
            if inside im p \<and> covers R (Line [(0, int k), (sz, int k)] 0) p then ink
            else im_px (paint_rows sz (int k) col im) p\<rparr>),
          calls := calls w1 @ [(d, Line [(0, int k), (sz, int k)] 0, c)]\<rparr>"
    using w1' unfolding im1 by (simp only: inside_paint_rows)
  have rc: "row_calls d sz (int (Suc k)) col = row_calls d sz (int k) col @ [(d, Line [(0, int k), (sz, int k)] 0, c)]"
    unfolding row_calls_def py_range_Suc using c by (simp add: outr_def)
  note ps = paint_rows_Suc[where col=col and k=k and c=c and im=im and ink=ink and sz=sz and R=R, OF c ink]
  show ?case
    unfolding w' ps by (simp add: w1 rows_world_def rc del: of_nat_Suc)
qed

lemma rows_effect:
  assumes "for_each (py_range n) (\<lambda>y. py_bind (lift (col y)) (\<lambda>c. line R d [(0, y), (sz, y)] c 0)) w = (Inr u, w')"
    and "heap w d = Some im"
  shows "w' = rows_world d sz n col im w"
proof (cases "0 \<le> n")
  case True
  then show ?thesis using rows_effect_nat[of "nat n" col R d sz w u w' im] assms by simp
next
  case False
  then show ?thesis using assms
    by (simp add: py_range_neg py_ret_def rows_world_def paint_rows_none row_calls_def fun_upd_idem)
qed

lemma rows_returns_nat:
  assumes "heap w d = Some im"
    and "\<And>y. 0 \<le> y \<Longrightarrow> y < int k \<Longrightarrow> \<exists>c ink. col y = Inr c \<and> getink (im_mode im) c = Inr ink"
  shows "\<exists>w'. for_each (py_range (int k)) (\<lambda>y. py_bind (lift (col y)) (\<lambda>c. line R d [(0, y), (sz, y)] c 0)) w = (Inr (), w')"
  using assms
proof (induction k)
  case 0
  then show ?case by (simp add: py_range_def py_ret_def)
next
  case (Suc k)
  let ?body = "\<lambda>y. py_bind (lift (col y)) (\<lambda>c. line R d [(0, y), (sz, y)] c 0)"
  from Suc obtain w1 where a: "for_each (py_range (int k)) ?body w = (Inr (), w1)" by force
  have w1: "w1 = rows_world d sz (int k) col im w" by (rule rows_effect_nat[OF a Suc.prems(1)])
  obtain c ink where c: "col (int k) = Inr c" and ink: "getink (im_mode im) c = Inr ink"
    using Suc.prems(2)[of "int k"] by auto
  have h1: "heap w1 d = Some (paint_rows sz (int k) col im)" by (simp add: w1 rows_world_def)
  have m: "getink (im_mode (paint_rows sz (int k) col im)) c = Inr ink"
    using ink by (simp add: paint_rows_def)
  have "box_ok (Line [(0, int k), (sz, int k)] 0)" by (simp add: box_ok_def)
  from draw_shape_ok[OF h1 m this]
  obtain w' where "draw_shape R d (Line [(0, int k), (sz, int k)] 0) c w1 = (Inr (), w')" by blast
  then have "for_each [int k] ?body w1 = (Inr (), w')"
    using c by (simp add: bind_lift line_def py_bind_def py_ret_def)
  then show ?case unfolding py_range_Suc for_each_append using a by (auto simp: py_bind_def)
qed

lemma rows_returns:
  assumes "heap w d = Some im"
    and "\<And>y. 0 \<le> y \<Longrightarrow> y < n \<Longrightarrow> \<exists>c ink. col y = Inr c \<and> getink (im_mode im) c = Inr ink"
  shows "\<exists>w'. for_each (py_range n) (\<lambda>y. py_bind (lift (col y)) (\<lambda>c. line R d [(0, y), (sz, y)] c 0)) w = (Inr (), w')"
proof (cases "0 \<le> n")
  case True
  then show ?thesis using rows_returns_nat[of w d im "nat n" col R sz] assms by simp
next
  case False
  then show ?thesis by (simp add: py_range_neg py_ret_def)
qed

lemma lift_ebind:
  "py_bind (lift (ebind r f)) g = py_bind (lift r) (\<lambda>x. py_bind (lift (f x)) g)"
  by (cases r) (auto simp: py_bind_def lift_def ebind_def fun_eq_iff)

lemma gradient_body:
  "(\<lambda>y. py_bind (lift (truediv y sz)) (\<lambda>ratio.
       py_bind (lift (interp (fst color1) (fst color2) ratio)) (\<lambda>r.
       py_bind (lift (interp (fst (snd color1)) (fst (snd color2)) ratio)) (\<lambda>g.
       py_bind (lift (interp (snd (snd color1)) (snd (snd color2)) ratio)) (\<lambda>b.
       line R draw [(0, y), (sz, y)] (CRGBA r g b 255) 0)))))
   = (\<lambda>y. py_bind (lift (gradient_color sz color1 color2 y)) (\<lambda>c. line R draw [(0, y), (sz, y)] c 0))"
  by (simp add: gradient_color_def lift_ebind bind_lift)

lemma highlight_body:
  "(\<lambda>y. py_bind (lift (highlight_alpha sz y)) (\<lambda>a.
       line R d [(0, y), (sz, y)] (CRGBA 255 255 255 a) 0))
   = (\<lambda>y. py_bind (lift (highlight_color sz y)) (\<lambda>c. line R d [(0, y), (sz, y)] c 0))"
  by (simp add: highlight_color_def lift_ebind bind_lift)

section \<open>The crab\<close>

lemma draw_crab_values:
  assumes "draw_crab R d sz c w = (Inr u, w')"
  shows "\<exists>s. truediv sz 128 = Inr s \<and> scaled 4 s = Inr (sc sz 4) \<and> scaled 35 s = Inr (sc sz 35)
           \<and> scaled 20 s = Inr (sc sz 20) \<and> scaled 10 s = Inr (sc sz 10)"
  using assms
  unfolding draw_crab_def Let_def py_range_3 for_each.simps
  apply (elim py_bindE liftE py_retE)
  apply (simp add: sc_of)
  done

lemma truediv_pos:
  assumes "0 \<le> a" "0 < b" "truediv a b = Inr s"
  shows "s = fl (of_int a / of_int b)" and "0 \<le> s"
proof -
  show s: "s = fl (of_int a / of_int b)" using assms by (auto simp: truediv_def Let_def split: if_splits)
  show "0 \<le> s" unfolding s using assms by (intro fl_nonneg) simp
qed

lemma scaled_nonneg:
  assumes "0 \<le> k" "k < 2 ^ 53" "0 \<le> s" "scaled k s = Inr v"
  shows "0 \<le> v"
proof -
  have "\<bar>k\<bar> < 2 ^ 53" using assms by simp
  then have "py_int (fl (of_int k * s)) = Inr v"
    using assms(4) by (simp add: scaled_def int_times_small ebind_def)
  moreover have "0 \<le> fl (of_int k * s)" using assms by (intro fl_nonneg) simp
  ultimately show ?thesis by (auto simp: py_int_def split: if_splits)
qed

lemma ilog2_ge:
  assumes "2 powi k \<le> x"
  shows "k \<le> ilog2 x"
proof -
  have x: "0 < x" using assms zero_less_power_int[of "2::rat" k] by linarith
  have "(2::rat) powi k < 2 powi (ilog2 x + 1)" using ilog2_bounds(2)[OF x] assms by simp
  then have "k < ilog2 x + 1" by (rule powi2_less_imp)
  then show ?thesis by simp
qed

lemma leg_width_formula:
  assumes sz: "1 \<le> sz" and s: "truediv sz 128 = Inr s" and lw: "scaled 4 s = Inr lw"
  shows "ebind (truediv (4 * sz) 128) py_int = Inr lw"
proof -
  let ?x = "(of_int sz :: rat) / 128"
  have x: "0 < ?x" using sz by simp
  have "(2::rat) powi (- 7) \<le> ?x" using sz by (simp add: power_int_minus)
  then have il: "- 1022 \<le> ilog2 ?x" using ilog2_ge[of "-7" ?x] by simp
  have sv: "s = fl ?x" using truediv_pos(1)[of sz 128 s] sz s by simp
  have "fl (4 * s) = fl (fl (4 * ?x))" unfolding sv by (simp only: fl_times4[OF x il])
  then have f4: "fl (4 * s) = fl (4 * ?x)" by (simp only: fl_idem)
  have p: "py_int (fl (4 * ?x)) = Inr lw"
    using lw f4 by (simp add: scaled_def int_times_small ebind_def)
  then have no: "\<not> overflows (fl (4 * ?x))" by (auto simp: py_int_def split: if_splits)
  have "(of_int (4 * sz) :: rat) / of_int 128 = 4 * ?x" by simp
  then have "truediv (4 * sz) 128 = Inr (fl (4 * ?x))"
    using no by (simp add: truediv_def)
  then show ?thesis using p by (simp add: ebind_def)
qed

lemma leg_width_small:
  assumes "1 \<le> sz" "sz < 32"
  shows "sc sz 4 = 0"
proof -
  have sz: "0 \<le> sz" "sz \<le> 2 ^ 1000" using assms by simp_all
  let ?s = "fl (of_int sz / 128)"
  have e1: "fl (31 / 128) = 31 / 128" using fl_exact[of 31 "- 7"] by (simp add: power_int_minus)
  have e2: "fl (31 / 32) = 31 / 32" using fl_exact[of 31 "- 5"] by (simp add: power_int_minus)
  have "(of_int sz :: rat) \<le> of_int 31" using assms(2) by (simp only: of_int_le_iff)
  then have "(of_int sz :: rat) / 128 \<le> 31 / 128" by simp
  then have "?s \<le> 31 / 128" using fl_mono[of "of_int sz / 128" "31 / 128"] sz e1 by simp
  then have "4 * ?s \<le> 31 / 32" by simp
  moreover have s0: "0 \<le> 4 * ?s" using truediv_128(2)[OF sz] by simp
  ultimately have "fl (4 * ?s) \<le> 31 / 32" using fl_mono[of "4 * ?s" "31 / 32"] e2 by simp
  moreover have "0 \<le> fl (4 * ?s)" by (rule fl_nonneg[OF s0])
  ultimately have "\<lfloor>fl (4 * ?s)\<rfloor> = 0" by (simp add: floor_eq_iff)
  then show ?thesis using sc_eq[OF sz, of 4] by simp
qed

lemma painted_from_calls:
  "painted_from R d c w shs w' \<Longrightarrow> calls w' = calls w @ map (\<lambda>sh. (d, sh, c)) shs"
  by (auto simp: painted_from_def)

lemma crab_lines:
  "filter is_line (crab_shapes sz) = crab_legs sz"
  by (simp add: crab_shapes_def crab_legs_def Let_def is_line_def)

text \<open>
  C10. For every size of at least 1, the drawing calls that \<open>draw_crab\<close> makes contain exactly
  six line primitives: three legs on the left of the centre column and three on the right,
  alternating, one pair per row. Each has stroke width \<open>max(1, int(4 * size / 128))\<close>, which
  is at least 1; below size 32 the scaled width is 0 and the legs are drawn with width 1.
  The function returns for every size from 1 to \<open>2\<^sup>1\<^sup>0\<^sup>0\<^sup>0\<close> (given an image to draw on).
\<close>

theorem draw_crab_legs:
  assumes "1 \<le> sz"
  shows "(sz \<le> 2 ^ 1000 \<and> heap w d = Some im \<and> getink (im_mode im) c = Inr ink
            \<longrightarrow> (\<exists>w'. draw_crab R d sz c w = (Inr (), w')))
       \<and> (\<forall>w'. draw_crab R d sz c w = (Inr (), w') \<longrightarrow>
            (\<exists>lw wd a len y0 dy.
               ebind (truediv (4 * sz) 128) py_int = Inr lw \<and> wd = max 1 lw \<and> 1 \<le> wd
             \<and> (sz < 32 \<longrightarrow> lw = 0 \<and> wd = 1)
             \<and> 0 \<le> a \<and> 0 \<le> len
             \<and> filter is_line (map (\<lambda>call. fst (snd call)) (drop (length (calls w)) (calls w'))) =
                 [Line [(sz div 2 - a, y0), (sz div 2 - a - len, y0 + len div 2)] wd,
                  Line [(sz div 2 + a, y0), (sz div 2 + a + len, y0 + len div 2)] wd,
                  Line [(sz div 2 - a, y0 + dy), (sz div 2 - a - len, y0 + dy + len div 2)] wd,
                  Line [(sz div 2 + a, y0 + dy), (sz div 2 + a + len, y0 + dy + len div 2)] wd,
                  Line [(sz div 2 - a, y0 + 2 * dy), (sz div 2 - a - len, y0 + 2 * dy + len div 2)] wd,
                  Line [(sz div 2 + a, y0 + 2 * dy), (sz div 2 + a + len, y0 + 2 * dy + len div 2)] wd]))"
proof (intro conjI impI allI)
  assume h: "sz \<le> 2 ^ 1000 \<and> heap w d = Some im \<and> getink (im_mode im) c = Inr ink"
  have "0 \<le> sz" using assms by simp
  then show "\<exists>w'. draw_crab R d sz c w = (Inr (), w')"
    using draw_crab_returns[of sz w d im c ink R] h by blast
next
  fix w'
  assume run: "draw_crab R d sz c w = (Inr (), w')"
  obtain s where s: "truediv sz 128 = Inr s" and v4: "scaled 4 s = Inr (sc sz 4)"
    and v35: "scaled 35 s = Inr (sc sz 35)" and v20: "scaled 20 s = Inr (sc sz 20)"
    using draw_crab_values[OF run] by blast
  have s0: "0 \<le> s" using truediv_pos(2)[of sz 128 s] assms s by simp
  have a: "0 \<le> sc sz 35" by (rule scaled_nonneg[OF _ _ s0 v35]) simp_all
  have l: "0 \<le> sc sz 20" by (rule scaled_nonneg[OF _ _ s0 v20]) simp_all
  have f: "ebind (truediv (4 * sz) 128) py_int = Inr (sc sz 4)"
    by (rule leg_width_formula[OF assms s v4])
  have small: "sz < 32 \<longrightarrow> sc sz 4 = 0 \<and> max 1 (sc sz 4) = 1"
    using leg_width_small[OF assms] by simp
  have "calls w' = calls w @ map (\<lambda>sh. (d, sh, c)) (crab_shapes sz)"
    by (rule painted_from_calls[OF draw_crab_painted[OF run]])
  then have "map (\<lambda>call. fst (snd call)) (drop (length (calls w)) (calls w')) = crab_shapes sz"
    by (simp add: comp_def)
  then have "filter is_line (map (\<lambda>call. fst (snd call)) (drop (length (calls w)) (calls w'))) = crab_legs sz"
    by (simp only: crab_lines)
  then have legs: "filter is_line (map (\<lambda>call. fst (snd call)) (drop (length (calls w)) (calls w'))) =
       [Line [(sz div 2 - sc sz 35, sz div 2 + sc sz 10), (sz div 2 - sc sz 35 - sc sz 20, sz div 2 + sc sz 10 + sc sz 20 div 2)] (max 1 (sc sz 4)),
        Line [(sz div 2 + sc sz 35, sz div 2 + sc sz 10), (sz div 2 + sc sz 35 + sc sz 20, sz div 2 + sc sz 10 + sc sz 20 div 2)] (max 1 (sc sz 4)),
        Line [(sz div 2 - sc sz 35, sz div 2 + sc sz 10 + sc sz 10), (sz div 2 - sc sz 35 - sc sz 20, sz div 2 + sc sz 10 + sc sz 10 + sc sz 20 div 2)] (max 1 (sc sz 4)),
        Line [(sz div 2 + sc sz 35, sz div 2 + sc sz 10 + sc sz 10), (sz div 2 + sc sz 35 + sc sz 20, sz div 2 + sc sz 10 + sc sz 10 + sc sz 20 div 2)] (max 1 (sc sz 4)),
        Line [(sz div 2 - sc sz 35, sz div 2 + sc sz 10 + 2 * sc sz 10), (sz div 2 - sc sz 35 - sc sz 20, sz div 2 + sc sz 10 + 2 * sc sz 10 + sc sz 20 div 2)] (max 1 (sc sz 4)),
        Line [(sz div 2 + sc sz 35, sz div 2 + sc sz 10 + 2 * sc sz 10), (sz div 2 + sc sz 35 + sc sz 20, sz div 2 + sc sz 10 + 2 * sc sz 10 + sc sz 20 div 2)] (max 1 (sc sz 4))]"
    by (simp add: crab_legs_def Let_def)
  show "\<exists>lw wd a len y0 dy.
               ebind (truediv (4 * sz) 128) py_int = Inr lw \<and> wd = max 1 lw \<and> 1 \<le> wd
             \<and> (sz < 32 \<longrightarrow> lw = 0 \<and> wd = 1)
             \<and> 0 \<le> a \<and> 0 \<le> len
             \<and> filter is_line (map (\<lambda>call. fst (snd call)) (drop (length (calls w)) (calls w'))) =
                 [Line [(sz div 2 - a, y0), (sz div 2 - a - len, y0 + len div 2)] wd,
                  Line [(sz div 2 + a, y0), (sz div 2 + a + len, y0 + len div 2)] wd,
                  Line [(sz div 2 - a, y0 + dy), (sz div 2 - a - len, y0 + dy + len div 2)] wd,
                  Line [(sz div 2 + a, y0 + dy), (sz div 2 + a + len, y0 + dy + len div 2)] wd,
                  Line [(sz div 2 - a, y0 + 2 * dy), (sz div 2 - a - len, y0 + 2 * dy + len div 2)] wd,
                  Line [(sz div 2 + a, y0 + 2 * dy), (sz div 2 + a + len, y0 + 2 * dy + len div 2)] wd]"
    apply (rule exI[of _ "sc sz 4"], rule exI[of _ "max 1 (sc sz 4)"], rule exI[of _ "sc sz 35"],
           rule exI[of _ "sc sz 20"], rule exI[of _ "sz div 2 + sc sz 10"], rule exI[of _ "sc sz 10"])
    using f small a l legs by simp
qed

theorem draw_crab_legs_witness:
  "\<exists>w' a len y0 dy.
      draw_crab no_raster 0 16 WHITE (canvas_world 16) = (Inr (), w')
    \<and> ebind (truediv (4 * 16) 128) py_int = Inr 0
    \<and> filter is_line (map (\<lambda>call. fst (snd call)) (drop 0 (calls w'))) =
          [Line [(8 - a, y0), (8 - a - len, y0 + len div 2)] 1,
           Line [(8 + a, y0), (8 + a + len, y0 + len div 2)] 1,
           Line [(8 - a, y0 + dy), (8 - a - len, y0 + dy + len div 2)] 1,
           Line [(8 + a, y0 + dy), (8 + a + len, y0 + dy + len div 2)] 1,
           Line [(8 - a, y0 + 2 * dy), (8 - a - len, y0 + 2 * dy + len div 2)] 1,
           Line [(8 + a, y0 + 2 * dy), (8 + a + len, y0 + 2 * dy + len div 2)] 1]"
proof -
  have h: "heap (canvas_world 16) 0 = Some \<lparr>im_mode = Mode_RGBA, im_size = (16, 16), im_px = (\<lambda>_. (0, 0, 0, 0))\<rparr>"
    and c: "calls (canvas_world 16) = []"
    by (simp_all add: canvas_world_def blank_world_def Image_new_def getink_def)
  have g: "getink (im_mode \<lparr>im_mode = Mode_RGBA, im_size = (16, 16), im_px = (\<lambda>_. (0, 0, 0, 0))\<rparr>) WHITE = Inr (255, 255, 255, 255)"
    by (simp add: getink_def WHITE_def clip8_def)
  show ?thesis
    using draw_crab_legs[of 16 "canvas_world 16" 0
        "\<lparr>im_mode = Mode_RGBA, im_size = (16, 16), im_px = (\<lambda>_. (0, 0, 0, 0))\<rparr>"
        WHITE "(255, 255, 255, 255)" no_raster] h g c
    by simp blast
qed



section \<open>The effect of create_gradient and create_icon\<close>

lemma Image_newE:
  assumes "Image_new m (sz, sz) c w = (Inr r, w')"
  obtains ink where "0 \<le> sz" "getink m c = Inr ink" "r = next_ref w"
    "w' = w\<lparr>heap := (heap w)(next_ref w \<mapsto> new_image m sz ink), next_ref := Suc (next_ref w)\<rparr>"
  using assms by (auto simp: Image_new_def new_image_def split: if_splits sum.splits)

lemma create_gradient_effect:
  assumes "create_gradient R sz color1 color2 w = (Inr r, w')"
  shows "r = next_ref w" and "0 \<le> sz"
    and "w' = w\<lparr>heap := (heap w)(next_ref w \<mapsto> gradient_image sz color1 color2),
                 next_ref := Suc (next_ref w),
                 calls := calls w @ row_calls (next_ref w) sz sz (gradient_color sz color1 color2)\<rparr>"
proof -
  from assms obtain img w1 u w2 where
    n: "Image_new Mode_RGBA (sz, sz) (CInt 0) w = (Inr img, w1)" and
    l: "for_each (py_range sz) (\<lambda>y. py_bind (lift (gradient_color sz color1 color2 y))
          (\<lambda>c. line R img [(0, y), (sz, y)] c 0)) w1 = (Inr u, w2)" and
    r: "r = img" "w' = w2"
    unfolding create_gradient_def ImageDraw_Draw_def gradient_body
    by (elim py_bindE py_retE) auto
  from n obtain ink where sz: "0 \<le> sz" and ink: "getink Mode_RGBA (CInt 0) = Inr ink"
    and img: "img = next_ref w"
    and w1: "w1 = w\<lparr>heap := (heap w)(next_ref w \<mapsto> new_image Mode_RGBA sz ink), next_ref := Suc (next_ref w)\<rparr>"
    by (rule Image_newE)
  have ink0: "ink = (0, 0, 0, 0)" using ink by (simp add: getink_def)
  have h1: "heap w1 img = Some (new_image Mode_RGBA sz (0, 0, 0, 0))" by (simp add: w1 img ink0)
  have "w2 = rows_world img sz sz (gradient_color sz color1 color2) (new_image Mode_RGBA sz (0, 0, 0, 0)) w1"
    by (rule rows_effect[OF l h1])
  then show "w' = w\<lparr>heap := (heap w)(next_ref w \<mapsto> gradient_image sz color1 color2),
                 next_ref := Suc (next_ref w),
                 calls := calls w @ row_calls (next_ref w) sz sz (gradient_color sz color1 color2)\<rparr>"
    by (simp add: r w1 img rows_world_def gradient_image_def)
  show "r = next_ref w" by (simp add: r img)
  show "0 \<le> sz" by (rule sz)
qed

lemma putalphaE:
  assumes "putalpha img msk w = (Inr u, w')"
  obtains im mk where "heap w img = Some im" "heap w msk = Some mk"
    "im_mode im = Mode_RGBA" "im_mode mk = Mode_L" "im_size im = im_size mk"
    "w' = w\<lparr>heap := (heap w)(img \<mapsto> with_alpha im mk)\<rparr>"
  using assms by (auto simp: putalpha_def with_alpha_def split: option.splits if_splits)

lemma alpha_compositeE:
  assumes "alpha_composite im1 im2 w = (Inr r, w')"
  obtains a b where "heap w im1 = Some a" "heap w im2 = Some b" "r = next_ref w"
    "w' = w\<lparr>heap := (heap w)(next_ref w \<mapsto> composite a b), next_ref := Suc (next_ref w)\<rparr>"
  using assms by (auto simp: alpha_composite_def composite_def split: option.splits if_splits)

lemma painted_fromD:
  assumes "painted_from R d c w0 shs w" "heap w0 d = Some im" "getink (im_mode im) c = Inr ink"
  shows "w = w0\<lparr>heap := (heap w0)(d \<mapsto> paint_all R shs ink im),
               calls := calls w0 @ map (\<lambda>sh. (d, sh, c)) shs\<rparr>"
  using assms by (auto simp: painted_from_def)

lemma create_icon_effect:
  assumes "create_icon R sz w = (Inr r, w')"
  shows "r = Suc (Suc (Suc (next_ref w)))" and "w' = icon_world R sz w" and "1 \<le> sz"
proof -
  let ?n = "next_ref w"
  from assms obtain img w1 msk w2 u3 w3 u4 w4 u5 w5 hl w6 u7 w7 where
    s1: "create_gradient R sz BLUE_LIGHT BLUE_DARK w = (Inr img, w1)" and
    s2: "Image_new Mode_L (sz, sz) (CInt 0) w1 = (Inr msk, w2)" and
    s3: "draw_shape R msk (mask_shape sz) (CInt 255) w2 = (Inr u3, w3)" and
    s4: "putalpha img msk w3 = (Inr u4, w4)" and
    s5: "draw_crab R img sz WHITE w4 = (Inr u5, w5)" and
    s6: "Image_new Mode_RGBA (sz, sz) (CRGBA 0 0 0 0) w5 = (Inr hl, w6)" and
    s7: "for_each (py_range (sz div 3)) (\<lambda>y. py_bind (lift (highlight_color sz y))
          (\<lambda>c. line R hl [(0, y), (sz, y)] c 0)) w6 = (Inr u7, w7)" and
    s8: "alpha_composite img hl w7 = (Inr r, w')"
    unfolding create_icon_def ImageDraw_Draw_def highlight_body Let_def rounded_rectangle_def
      mask_shape_def[symmetric]
    by (elim py_bindE py_retE) auto
  note g = create_gradient_effect[OF s1]
  have img: "img = ?n" by (rule g(1))
  have w1: "w1 = w\<lparr>heap := (heap w)(?n \<mapsto> gradient_image sz BLUE_LIGHT BLUE_DARK),
                 next_ref := Suc ?n,
                 calls := calls w @ row_calls ?n sz sz (gradient_color sz BLUE_LIGHT BLUE_DARK)\<rparr>"
    by (rule g(3))
  from s2 obtain ink2 where ink2: "getink Mode_L (CInt 0) = Inr ink2" and msk0: "msk = next_ref w1"
    and w2: "w2 = w1\<lparr>heap := (heap w1)(next_ref w1 \<mapsto> new_image Mode_L sz ink2), next_ref := Suc (next_ref w1)\<rparr>"
    by (rule Image_newE)
  have msk: "msk = Suc ?n" by (simp add: msk0 w1)
  have i2: "ink2 = (0, 0, 0, 0)" using ink2 by (simp add: getink_def clip8_def)
  have h2: "heap w2 msk = Some (new_image Mode_L sz (0, 0, 0, 0))" by (simp add: w2 msk0 i2)
  have bx: "box_ok (mask_shape sz)" using s3 by (auto elim: draw_shapeE)
  then show "1 \<le> sz" by (simp add: box_ok_def mask_shape_def)
  have k3: "getink (im_mode (new_image Mode_L sz (0, 0, 0, 0))) (CInt 255) = Inr (255, 0, 0, 0)"
    by (simp add: getink_def new_image_def clip8_def)
  have w3: "w3 = w2\<lparr>heap := (heap w2)(msk \<mapsto> mask_image R sz),
               calls := calls w2 @ [(msk, mask_shape sz, CInt 255)]\<rparr>"
    using painted_fromD[OF paint_start[OF s3] h2 k3] by (simp add: mask_image_def)
  have h3i: "heap w3 img = Some (gradient_image sz BLUE_LIGHT BLUE_DARK)"
    by (simp add: w3 w2 w1 img msk)
  have h3m: "heap w3 msk = Some (mask_image R sz)" by (simp add: w3)
  have w4: "w4 = w3\<lparr>heap := (heap w3)(img \<mapsto> with_alpha (gradient_image sz BLUE_LIGHT BLUE_DARK) (mask_image R sz))\<rparr>"
    using s4 h3i h3m by (auto elim!: putalphaE)
  have h4: "heap w4 img = Some (with_alpha (gradient_image sz BLUE_LIGHT BLUE_DARK) (mask_image R sz))"
    by (simp add: w4)
  have k5: "getink (im_mode (with_alpha (gradient_image sz BLUE_LIGHT BLUE_DARK) (mask_image R sz))) WHITE
            = Inr (255, 255, 255, 255)"
    by (simp add: with_alpha_def gradient_image_def paint_rows_def new_image_def getink_def WHITE_def clip8_def)
  have w5: "w5 = w4\<lparr>heap := (heap w4)(img \<mapsto> base_image R sz),
               calls := calls w4 @ map (\<lambda>sh. (img, sh, WHITE)) (crab_shapes sz)\<rparr>"
    using painted_fromD[OF draw_crab_painted[OF s5] h4 k5] by (simp add: base_image_def)
  from s6 obtain ink6 where ink6: "getink Mode_RGBA (CRGBA 0 0 0 0) = Inr ink6" and hl0: "hl = next_ref w5"
    and w6: "w6 = w5\<lparr>heap := (heap w5)(next_ref w5 \<mapsto> new_image Mode_RGBA sz ink6), next_ref := Suc (next_ref w5)\<rparr>"
    by (rule Image_newE)
  have hl: "hl = Suc (Suc ?n)" by (simp add: hl0 w5 w4 w3 w2 w1)
  have i6: "ink6 = (0, 0, 0, 0)" using ink6 by (simp add: getink_def clip8_def)
  have h6: "heap w6 hl = Some (new_image Mode_RGBA sz (0, 0, 0, 0))" by (simp add: w6 hl0 i6)
  have w7: "w7 = rows_world hl sz (sz div 3) (highlight_color sz) (new_image Mode_RGBA sz (0, 0, 0, 0)) w6"
    by (rule rows_effect[OF s7 h6])
  have h7i: "heap w7 img = Some (base_image R sz)"
    by (simp add: w7 rows_world_def w6 w5 hl0 img w4 w3 w2 w1)
  have h7h: "heap w7 hl = Some (highlight_image sz)"
    by (simp add: w7 rows_world_def highlight_image_def)
  have n7: "next_ref w7 = Suc (Suc (Suc ?n))"
    by (simp add: w7 rows_world_def w6 w5 w4 w3 w2 w1)
  from s8 h7i h7h have r: "r = next_ref w7"
    and w': "w' = w7\<lparr>heap := (heap w7)(next_ref w7 \<mapsto> composite (base_image R sz) (highlight_image sz)),
                    next_ref := Suc (next_ref w7)\<rparr>"
    by (auto elim!: alpha_compositeE)
  show "r = Suc (Suc (Suc ?n))" by (simp add: r n7)
  show "w' = icon_world R sz w"
    unfolding w' n7 unfolding w7 rows_world_def w6 w5 w4 w3 w2 w1 hl img msk icon_world_def icon_calls_def icon_image_def
    by (simp add: highlight_image_def fun_eq_iff)
qed


section \<open>Runs that return\<close>

lemma image_attrs [simp]:
  "im_mode (paint_rows sz n col im) = im_mode im" "im_size (paint_rows sz n col im) = im_size im"
  "im_mode (paint_all R shs ink im) = im_mode im" "im_size (paint_all R shs ink im) = im_size im"
  "im_mode (with_alpha im mk) = im_mode im" "im_size (with_alpha im mk) = im_size im"
  "im_mode (new_image m sz ink) = m" "im_size (new_image m sz ink) = (sz, sz)"
  "im_mode (composite a b) = Mode_RGBA" "im_size (composite a b) = im_size a"
  by (simp_all add: paint_rows_def paint_all_def with_alpha_def new_image_def composite_def)

lemma icon_image_attrs [simp]:
  "im_mode (gradient_image sz c1 c2) = Mode_RGBA" "im_size (gradient_image sz c1 c2) = (sz, sz)"
  "im_mode (mask_image R sz) = Mode_L" "im_size (mask_image R sz) = (sz, sz)"
  "im_mode (base_image R sz) = Mode_RGBA" "im_size (base_image R sz) = (sz, sz)"
  "im_mode (highlight_image sz) = Mode_RGBA" "im_size (highlight_image sz) = (sz, sz)"
  "im_mode (icon_image R sz) = Mode_RGBA" "im_size (icon_image R sz) = (sz, sz)"
  by (simp_all add: gradient_image_def mask_image_def base_image_def highlight_image_def icon_image_def)

lemma getink_rgba:
  "getink Mode_RGBA (CRGBA r g b a) = Inr (clip8 r, clip8 g, clip8 b, clip8 a)"
  "getink Mode_RGBA (CRGB r g b) = Inr (clip8 r, clip8 g, clip8 b, 255)"
  "getink Mode_RGBA (CInt 0) = Inr (0, 0, 0, 0)"
  "getink Mode_L (CInt v) = Inr (clip8 v, 0, 0, 0)"
  by (simp_all add: getink_def)

lemma color_range:
  "0 \<le> fst BLUE_LIGHT" "fst BLUE_LIGHT \<le> 255" "0 \<le> fst (snd BLUE_LIGHT)" "fst (snd BLUE_LIGHT) \<le> 255"
  "0 \<le> snd (snd BLUE_LIGHT)" "snd (snd BLUE_LIGHT) \<le> 255"
  "0 \<le> fst BLUE_DARK" "fst BLUE_DARK \<le> 255" "0 \<le> fst (snd BLUE_DARK)" "fst (snd BLUE_DARK) \<le> 255"
  "0 \<le> snd (snd BLUE_DARK)" "snd (snd BLUE_DARK) \<le> 255"
  by (simp_all add: BLUE_LIGHT_def BLUE_DARK_def)

lemma create_gradient_returns:
  assumes sz: "0 \<le> sz"
    and c: "0 \<le> fst c1" "fst c1 \<le> 255" "0 \<le> fst (snd c1)" "fst (snd c1) \<le> 255"
      "0 \<le> snd (snd c1)" "snd (snd c1) \<le> 255"
      "0 \<le> fst c2" "fst c2 \<le> 255" "0 \<le> fst (snd c2)" "fst (snd c2) \<le> 255"
      "0 \<le> snd (snd c2)" "snd (snd c2) \<le> 255"
  shows "\<exists>w'. create_gradient R sz c1 c2 w = (Inr (next_ref w), w')"
proof -
  let ?w1 = "w\<lparr>heap := (heap w)(next_ref w \<mapsto> new_image Mode_RGBA sz (0, 0, 0, 0)), next_ref := Suc (next_ref w)\<rparr>"
  have n: "Image_new Mode_RGBA (sz, sz) (CInt 0) w = (Inr (next_ref w), ?w1)"
    using sz by (simp add: Image_new_def getink_rgba new_image_def)
  have h: "heap ?w1 (next_ref w) = Some (new_image Mode_RGBA sz (0, 0, 0, 0))" by simp
  have "\<exists>w'. for_each (py_range sz) (\<lambda>y. py_bind (lift (gradient_color sz c1 c2 y))
          (\<lambda>c. line R (next_ref w) [(0, y), (sz, y)] c 0)) ?w1 = (Inr (), w')"
  proof (rule rows_returns[OF h])
    fix y :: int assume y: "0 \<le> y" "y < sz"
    show "\<exists>c ink. gradient_color sz c1 c2 y = Inr c
            \<and> getink (im_mode (new_image Mode_RGBA sz (0, 0, 0, 0))) c = Inr ink"
      unfolding gradient_color_ok[OF c y] by (simp add: getink_rgba)
  qed
  then obtain w2 where l: "for_each (py_range sz) (\<lambda>y. py_bind (lift (gradient_color sz c1 c2 y))
          (\<lambda>c. line R (next_ref w) [(0, y), (sz, y)] c 0)) ?w1 = (Inr (), w2)" by blast
  have "create_gradient R sz c1 c2 w = (Inr (next_ref w), w2)"
    unfolding create_gradient_def ImageDraw_Draw_def gradient_body
    by (simp add: py_bind_def n py_ret_def l)
  then show ?thesis by blast
qed

lemma create_icon_returns:
  assumes sz: "1 \<le> sz" "sz \<le> 2 ^ 1000"
  shows "create_icon R sz w = (Inr (Suc (Suc (Suc (next_ref w)))), icon_world R sz w)"
proof -
  let ?n = "next_ref w"
  have sz0: "0 \<le> sz" using sz by simp
  obtain w1 where s1: "create_gradient R sz BLUE_LIGHT BLUE_DARK w = (Inr ?n, w1)"
    using create_gradient_returns[OF sz0 color_range] by blast
  have w1: "w1 = w\<lparr>heap := (heap w)(?n \<mapsto> gradient_image sz BLUE_LIGHT BLUE_DARK),
                 next_ref := Suc ?n,
                 calls := calls w @ row_calls ?n sz sz (gradient_color sz BLUE_LIGHT BLUE_DARK)\<rparr>"
    by (rule create_gradient_effect(3)[OF s1])
  let ?w2 = "w1\<lparr>heap := (heap w1)(Suc ?n \<mapsto> new_image Mode_L sz (0, 0, 0, 0)), next_ref := Suc (Suc ?n)\<rparr>"
  have s2: "Image_new Mode_L (sz, sz) (CInt 0) w1 = (Inr (Suc ?n), ?w2)"
    using sz0 by (simp add: Image_new_def getink_rgba new_image_def clip8_def w1)
  have h2: "heap ?w2 (Suc ?n) = Some (new_image Mode_L sz (0, 0, 0, 0))" by simp
  have k3: "getink (im_mode (new_image Mode_L sz (0, 0, 0, 0))) (CInt 255) = Inr (255, 0, 0, 0)"
    by (simp add: getink_rgba clip8_def)
  have bx: "box_ok (mask_shape sz)" using sz by (simp add: box_ok_def mask_shape_def)
  obtain w3 where s3: "draw_shape R (Suc ?n) (mask_shape sz) (CInt 255) ?w2 = (Inr (), w3)"
    using draw_shape_ok[OF h2 k3 bx] by blast
  have w3: "w3 = ?w2\<lparr>heap := (heap ?w2)(Suc ?n \<mapsto> mask_image R sz),
               calls := calls ?w2 @ [(Suc ?n, mask_shape sz, CInt 255)]\<rparr>"
    using painted_fromD[OF paint_start[OF s3] h2 k3] by (simp add: mask_image_def)
  have h3i: "heap w3 ?n = Some (gradient_image sz BLUE_LIGHT BLUE_DARK)" by (simp add: w3 w1)
  have h3m: "heap w3 (Suc ?n) = Some (mask_image R sz)" by (simp add: w3)
  let ?w4 = "w3\<lparr>heap := (heap w3)(?n \<mapsto> with_alpha (gradient_image sz BLUE_LIGHT BLUE_DARK) (mask_image R sz))\<rparr>"
  have s4: "putalpha ?n (Suc ?n) w3 = (Inr (), ?w4)"
    by (simp add: putalpha_def h3i h3m with_alpha_def)
  have h4: "heap ?w4 ?n = Some (with_alpha (gradient_image sz BLUE_LIGHT BLUE_DARK) (mask_image R sz))"
    by simp
  have k5: "getink (im_mode (with_alpha (gradient_image sz BLUE_LIGHT BLUE_DARK) (mask_image R sz))) WHITE
            = Inr (255, 255, 255, 255)"
    by (simp add: getink_rgba WHITE_def clip8_def)
  obtain w5 where s5: "draw_crab R ?n sz WHITE ?w4 = (Inr (), w5)"
    using draw_crab_returns[OF sz0 sz(2) h4 k5] by blast
  have w5: "w5 = ?w4\<lparr>heap := (heap ?w4)(?n \<mapsto> base_image R sz),
               calls := calls ?w4 @ map (\<lambda>sh. (?n, sh, WHITE)) (crab_shapes sz)\<rparr>"
    using painted_fromD[OF draw_crab_painted[OF s5] h4 k5] by (simp add: base_image_def)
  have n5: "next_ref w5 = Suc (Suc ?n)" by (simp add: w5 w3)
  let ?w6 = "w5\<lparr>heap := (heap w5)(Suc (Suc ?n) \<mapsto> new_image Mode_RGBA sz (0, 0, 0, 0)), next_ref := Suc (Suc (Suc ?n))\<rparr>"
  have s6: "Image_new Mode_RGBA (sz, sz) (CRGBA 0 0 0 0) w5 = (Inr (Suc (Suc ?n)), ?w6)"
    using sz0 by (simp add: Image_new_def getink_rgba new_image_def clip8_def n5)
  have h6: "heap ?w6 (Suc (Suc ?n)) = Some (new_image Mode_RGBA sz (0, 0, 0, 0))" by simp
  have "\<exists>w'. for_each (py_range (sz div 3)) (\<lambda>y. py_bind (lift (highlight_color sz y))
          (\<lambda>c. line R (Suc (Suc ?n)) [(0, y), (sz, y)] c 0)) ?w6 = (Inr (), w')"
  proof (rule rows_returns[OF h6])
    fix y :: int assume y: "0 \<le> y" "y < sz div 3"
    show "\<exists>c ink. highlight_color sz y = Inr c
            \<and> getink (im_mode (new_image Mode_RGBA sz (0, 0, 0, 0))) c = Inr ink"
      unfolding highlight_color_ok[OF y] by (simp add: getink_rgba)
  qed
  then obtain w7 where s7: "for_each (py_range (sz div 3)) (\<lambda>y. py_bind (lift (highlight_color sz y))
          (\<lambda>c. line R (Suc (Suc ?n)) [(0, y), (sz, y)] c 0)) ?w6 = (Inr (), w7)" by blast
  have w7: "w7 = rows_world (Suc (Suc ?n)) sz (sz div 3) (highlight_color sz) (new_image Mode_RGBA sz (0, 0, 0, 0)) ?w6"
    by (rule rows_effect[OF s7 h6])
  have h7i: "heap w7 ?n = Some (base_image R sz)" by (simp add: w7 rows_world_def w5)
  have h7h: "heap w7 (Suc (Suc ?n)) = Some (highlight_image sz)"
    by (simp add: w7 rows_world_def highlight_image_def)
  obtain r w8 where s8: "alpha_composite ?n (Suc (Suc ?n)) w7 = (Inr r, w8)"
    by (simp add: alpha_composite_def h7i h7h)
  have run: "create_icon R sz w = (Inr r, w8)"
    unfolding create_icon_def ImageDraw_Draw_def highlight_body Let_def rounded_rectangle_def
      mask_shape_def[symmetric]
    by (simp add: py_bind_def py_ret_def s1 s2 s3 s4 s5 s6 s7 s8)
  show ?thesis using create_icon_effect(1,2)[OF run] run by simp
qed


section \<open>Claims about create_icon\<close>

lemma supported_size: "sz \<in> {16, 48, 128, 256} \<Longrightarrow> 1 \<le> sz \<and> sz \<le> (2::int) ^ 1000"
  by auto

lemma icon_world_heap:
  "heap (icon_world R sz w) (next_ref w) = Some (base_image R sz)"
  "heap (icon_world R sz w) (Suc (next_ref w)) = Some (mask_image R sz)"
  "heap (icon_world R sz w) (Suc (Suc (next_ref w))) = Some (highlight_image sz)"
  "heap (icon_world R sz w) (Suc (Suc (Suc (next_ref w)))) = Some (icon_image R sz)"
  by (simp_all add: icon_world_def)

text \<open>
  C5. For every supported size (16, 48, 128, 256) \<open>create_icon\<close> returns an image whose width
  and height are both that size; size 128 gives a 128 by 128 image.
\<close>

theorem create_icon_dimensions:
  assumes "sz \<in> {16, 48, 128, 256}"
  shows "\<exists>r w' im. create_icon R sz w = (Inr r, w') \<and> heap w' r = Some im \<and> im_size im = (sz, sz)"
proof -
  have "create_icon R sz w = (Inr (Suc (Suc (Suc (next_ref w)))), icon_world R sz w)"
    using supported_size[OF assms] by (intro create_icon_returns) simp_all
  then show ?thesis by (auto simp: icon_world_heap)
qed

theorem create_icon_dimensions_witness:
  "\<exists>r w' im. create_icon no_raster 128 blank_world = (Inr r, w') \<and> heap w' r = Some im
      \<and> im_size im = (128, 128)"
  using create_icon_dimensions[of 128 no_raster blank_world] by simp

lemma filter_row_calls:
  assumes "\<And>d pts wd c. \<not> P (d, Line pts wd, c)"
  shows "filter P (row_calls d sz n col) = []"
  using assms by (simp add: row_calls_def filter_empty_conv)

lemma row_calls_colors:
  assumes "\<And>y. 0 \<le> y \<Longrightarrow> y < n \<Longrightarrow> outr (CInt 0) (col y) \<noteq> c"
  shows "filter (\<lambda>call. snd (snd call) = c) (row_calls d sz n col) = []"
  using assms by (auto simp: row_calls_def filter_empty_conv py_range_def)

lemma icon_calls_rr:
  "filter (\<lambda>call. case fst (snd call) of RoundedRectangle _ _ \<Rightarrow> True | _ \<Rightarrow> False) (icon_calls n sz)
     = [(Suc n, RoundedRectangle (0, 0, sz - 1, sz - 1) (sz div 5), CInt 255)]"
  by (simp add: icon_calls_def filter_row_calls mask_shape_def crab_shapes_def crab_legs_def Let_def)

lemma icon_calls_white:
  "map (\<lambda>call. fst (snd call)) (filter (\<lambda>call. snd (snd call) = WHITE) (icon_calls n sz)) = crab_shapes sz"
proof -
  have g: "filter (\<lambda>call. snd (snd call) = WHITE)
             (row_calls n sz sz (gradient_color sz BLUE_LIGHT BLUE_DARK)) = []"
  proof (rule row_calls_colors)
    fix y :: int assume "0 \<le> y" "y < sz"
    then show "outr (CInt 0) (gradient_color sz BLUE_LIGHT BLUE_DARK y) \<noteq> WHITE"
      by (simp add: gradient_color_ok[OF color_range] outr_def WHITE_def)
  qed
  have h: "filter (\<lambda>call. snd (snd call) = WHITE)
             (row_calls (Suc (Suc n)) sz (sz div 3) (highlight_color sz)) = []"
  proof (rule row_calls_colors)
    fix y :: int assume "0 \<le> y" "y < sz div 3"
    then show "outr (CInt 0) (highlight_color sz y) \<noteq> WHITE"
      by (simp add: highlight_color_ok outr_def WHITE_def)
  qed
  show ?thesis
    by (simp add: icon_calls_def g[unfolded WHITE_def] h[unfolded WHITE_def] WHITE_def comp_def filter_map)
qed

text \<open>
  C6. Whenever \<open>create_icon\<close> returns, it has made exactly one rounded-rectangle call: on the
  mask, a single-band image of the target size that was created black, with the box
  \<open>(0, 0, size - 1, size - 1)\<close>, radius \<open>size div 5\<close> and fill 255. The mask is 255 where the
  rasteriser covers that rounded rectangle and 0 elsewhere, and it is what became the alpha
  band of the gradient image: every pixel that the crab did not paint afterwards has the
  mask's value as its alpha. \<open>create_icon\<close> returns for every size from 1 to \<open>2\<^sup>1\<^sup>0\<^sup>0\<^sup>0\<close>. For size
  128 the radius is 25.
\<close>

theorem create_icon_mask:
  "(1 \<le> sz \<and> sz \<le> 2 ^ 1000 \<longrightarrow> (\<exists>r w'. create_icon R sz w = (Inr r, w')))
   \<and> (\<forall>r w'. create_icon R sz w = (Inr r, w') \<longrightarrow>
         (\<exists>img msk.
            heap w' (next_ref w) = Some img \<and> heap w' (Suc (next_ref w)) = Some msk
          \<and> im_mode msk = Mode_L \<and> im_size msk = (sz, sz) \<and> im_size img = (sz, sz)
          \<and> filter (\<lambda>call. case fst (snd call) of RoundedRectangle _ _ \<Rightarrow> True | _ \<Rightarrow> False)
               (drop (length (calls w)) (calls w'))
             = [(Suc (next_ref w), RoundedRectangle (0, 0, sz - 1, sz - 1) (sz div 5), CInt 255)]
          \<and> (\<forall>p. fst (im_px msk p) =
                 (if inside msk p \<and> covers R (RoundedRectangle (0, 0, sz - 1, sz - 1) (sz div 5)) p
                  then 255 else 0))
          \<and> map (\<lambda>call. fst (snd call))
               (filter (\<lambda>call. snd (snd call) = WHITE) (drop (length (calls w)) (calls w')))
             = crab_shapes sz
          \<and> (\<forall>p. \<not> list_ex (\<lambda>sh. covers R sh p) (crab_shapes sz) \<longrightarrow>
                 alpha (im_px img p) = fst (im_px msk p))))"
proof (intro conjI impI allI)
  assume "1 \<le> sz \<and> sz \<le> 2 ^ 1000"
  then show "\<exists>r w'. create_icon R sz w = (Inr r, w')"
    using create_icon_returns[of sz R w] by blast
next
  fix r w'
  assume run: "create_icon R sz w = (Inr r, w')"
  have w': "w' = icon_world R sz w" by (rule create_icon_effect(2)[OF run])
  have c: "drop (length (calls w)) (calls w') = icon_calls (next_ref w) sz"
    by (simp add: w' icon_world_def)
  have m: "\<forall>p. fst (im_px (mask_image R sz) p) =
                 (if inside (mask_image R sz) p \<and> covers R (RoundedRectangle (0, 0, sz - 1, sz - 1) (sz div 5)) p
                  then 255 else 0)"
    by (simp add: mask_image_def paint_all_def new_image_def mask_shape_def inside_def)
  have a: "\<forall>p. \<not> list_ex (\<lambda>sh. covers R sh p) (crab_shapes sz) \<longrightarrow>
                 alpha (im_px (base_image R sz) p) = fst (im_px (mask_image R sz) p)"
    by (simp add: base_image_def paint_all_def with_alpha_def alpha_def split: prod.splits)
  show "\<exists>img msk.
            heap w' (next_ref w) = Some img \<and> heap w' (Suc (next_ref w)) = Some msk
          \<and> im_mode msk = Mode_L \<and> im_size msk = (sz, sz) \<and> im_size img = (sz, sz)
          \<and> filter (\<lambda>call. case fst (snd call) of RoundedRectangle _ _ \<Rightarrow> True | _ \<Rightarrow> False)
               (drop (length (calls w)) (calls w'))
             = [(Suc (next_ref w), RoundedRectangle (0, 0, sz - 1, sz - 1) (sz div 5), CInt 255)]
          \<and> (\<forall>p. fst (im_px msk p) =
                 (if inside msk p \<and> covers R (RoundedRectangle (0, 0, sz - 1, sz - 1) (sz div 5)) p
                  then 255 else 0))
          \<and> map (\<lambda>call. fst (snd call))
               (filter (\<lambda>call. snd (snd call) = WHITE) (drop (length (calls w)) (calls w')))
             = crab_shapes sz
          \<and> (\<forall>p. \<not> list_ex (\<lambda>sh. covers R sh p) (crab_shapes sz) \<longrightarrow>
                 alpha (im_px img p) = fst (im_px msk p))"
    apply (rule exI[of _ "base_image R sz"], rule exI[of _ "mask_image R sz"])
    unfolding c using m a
    by (simp add: w' icon_world_heap icon_calls_rr icon_calls_white)
qed

theorem create_icon_mask_witness:
  "\<exists>r w' img msk.
      create_icon no_raster 128 blank_world = (Inr r, w')
    \<and> heap w' 0 = Some img \<and> heap w' (Suc 0) = Some msk
    \<and> im_mode msk = Mode_L \<and> im_size msk = (128, 128) \<and> im_size img = (128, 128)
    \<and> filter (\<lambda>call. case fst (snd call) of RoundedRectangle _ _ \<Rightarrow> True | _ \<Rightarrow> False) (calls w')
        = [(Suc 0, RoundedRectangle (0, 0, 127, 127) 25, CInt 255)]"
proof -
  have n: "next_ref blank_world = 0" "calls blank_world = []" by (simp_all add: blank_world_def)
  show ?thesis
    using create_icon_mask[of 128 no_raster blank_world] unfolding n by simp blast
qed


section \<open>The highlight\<close>

lemma clip8_id: "0 \<le> v \<Longrightarrow> v \<le> 255 \<Longrightarrow> clip8 v = v"
  by (simp add: clip8_def)

lemma clip8_consts [simp]: "clip8 0 = 0" "clip8 255 = 255"
  by (simp_all add: clip8_def)

lemma highlight_px_in:
  assumes "0 \<le> x" "x < sz" "0 \<le> y" "y < sz div 3"
  shows "im_px (highlight_image sz) (x, y) = (255, 255, 255, hl_alpha sz y)"
proof -
  have "y < sz" using assms by linarith
  then have i: "inside (new_image Mode_RGBA sz (0, 0, 0, 0)) (x, y)"
    using assms by (simp add: inside_def)
  have a: "clip8 (hl_alpha sz y) = hl_alpha sz y"
    using hl_alpha_range(2,3)[OF assms(3,4)] by (intro clip8_id) simp_all
  have "row_ink Mode_RGBA (highlight_color sz) y = (255, 255, 255, hl_alpha sz y)"
    by (simp add: row_ink_def highlight_color_ok[OF assms(3,4)] ebind_def getink_rgba outr_def a)
  then show ?thesis using i assms by (simp add: highlight_image_def paint_rows_def)
qed

lemma highlight_px_out:
  assumes "\<not> (0 \<le> y \<and> y < sz div 3)"
  shows "im_px (highlight_image sz) (x, y) = (0, 0, 0, 0)"
  using assms by (auto simp: highlight_image_def paint_rows_def new_image_def)

lemma icon_px:
  "im_px (icon_image R sz) p = composite_px (im_px (base_image R sz) p) (im_px (highlight_image sz) p)"
  by (simp add: icon_image_def composite_def)

lemma composite_px_transparent: "composite_px d (r, g, b, 0) = d"
  by (simp add: composite_px_def split: prod.splits)

text \<open>
  C8. Whenever \<open>create_icon\<close> returns, the highlight it composites over the image is white
  with alpha \<open>int(80 * (1 - y / (size // 3)))\<close> on every pixel of the rows
  \<open>0 .. size // 3 - 1\<close> and fully transparent on every other row. That alpha is 80 on the top
  row, never increases from one row to the next, and stays between 0 and 80. On the rows at
  or below \<open>size // 3\<close> the returned image equals the image before compositing.
  \<open>create_icon\<close> returns for every size from 1 to \<open>2\<^sup>1\<^sup>0\<^sup>0\<^sup>0\<close>.
\<close>

theorem create_icon_highlight:
  "(1 \<le> sz \<and> sz \<le> 2 ^ 1000 \<longrightarrow> (\<exists>r w'. create_icon R sz w = (Inr r, w')))
   \<and> (\<forall>r w'. create_icon R sz w = (Inr r, w') \<longrightarrow>
         (\<exists>base hl out.
            heap w' (next_ref w) = Some base \<and> heap w' (Suc (Suc (next_ref w))) = Some hl
          \<and> heap w' r = Some out
          \<and> (\<forall>p. im_px out p = composite_px (im_px base p) (im_px hl p))
          \<and> (\<forall>x y. 0 \<le> x \<and> x < sz \<and> 0 \<le> y \<and> y < sz div 3 \<longrightarrow>
                 highlight_alpha sz y = Inr (hl_alpha sz y)
               \<and> im_px hl (x, y) = (255, 255, 255, hl_alpha sz y))
          \<and> (\<forall>x y. \<not> (0 \<le> y \<and> y < sz div 3) \<longrightarrow>
                 im_px hl (x, y) = (0, 0, 0, 0) \<and> im_px out (x, y) = im_px base (x, y))
          \<and> (0 < sz div 3 \<longrightarrow> hl_alpha sz 0 = 80)
          \<and> (\<forall>y y'. 0 \<le> y \<and> y \<le> y' \<and> y' < sz div 3 \<longrightarrow>
                 hl_alpha sz y' \<le> hl_alpha sz y \<and> 0 \<le> hl_alpha sz y' \<and> hl_alpha sz y \<le> 80)))"
proof (intro conjI impI allI)
  assume "1 \<le> sz \<and> sz \<le> 2 ^ 1000"
  then show "\<exists>r w'. create_icon R sz w = (Inr r, w')"
    using create_icon_returns[of sz R w] by blast
next
  fix r w'
  assume run: "create_icon R sz w = (Inr r, w')"
  have w': "w' = icon_world R sz w" and r: "r = Suc (Suc (Suc (next_ref w)))"
    using create_icon_effect[OF run] by simp_all
  have a: "\<forall>p. im_px (icon_image R sz) p
             = composite_px (im_px (base_image R sz) p) (im_px (highlight_image sz) p)"
    by (simp add: icon_px)
  have b: "\<forall>x y. 0 \<le> x \<and> x < sz \<and> 0 \<le> y \<and> y < sz div 3 \<longrightarrow>
                 highlight_alpha sz y = Inr (hl_alpha sz y)
               \<and> im_px (highlight_image sz) (x, y) = (255, 255, 255, hl_alpha sz y)"
    using hl_alpha_range(1) highlight_px_in by blast
  have c: "\<forall>x y. \<not> (0 \<le> y \<and> y < sz div 3) \<longrightarrow>
                 im_px (highlight_image sz) (x, y) = (0, 0, 0, 0)
               \<and> im_px (icon_image R sz) (x, y) = im_px (base_image R sz) (x, y)"
    by (simp add: icon_px highlight_px_out composite_px_transparent)
  have d: "0 < sz div 3 \<longrightarrow> hl_alpha sz 0 = 80" using hl_alpha_top by blast
  have e: "\<forall>y y'. 0 \<le> y \<and> y \<le> y' \<and> y' < sz div 3 \<longrightarrow>
                 hl_alpha sz y' \<le> hl_alpha sz y \<and> 0 \<le> hl_alpha sz y' \<and> hl_alpha sz y \<le> 80"
  proof (intro allI impI)
    fix y y' :: int assume h: "0 \<le> y \<and> y \<le> y' \<and> y' < sz div 3"
    then have "0 \<le> y'" "y < sz div 3" by linarith+
    then show "hl_alpha sz y' \<le> hl_alpha sz y \<and> 0 \<le> hl_alpha sz y' \<and> hl_alpha sz y \<le> 80"
      using h hl_alpha_mono[of y y' sz] hl_alpha_range(2)[of y' sz] hl_alpha_range(3)[of y sz]
      by simp
  qed
  show "\<exists>base hl out.
            heap w' (next_ref w) = Some base \<and> heap w' (Suc (Suc (next_ref w))) = Some hl
          \<and> heap w' r = Some out
          \<and> (\<forall>p. im_px out p = composite_px (im_px base p) (im_px hl p))
          \<and> (\<forall>x y. 0 \<le> x \<and> x < sz \<and> 0 \<le> y \<and> y < sz div 3 \<longrightarrow>
                 highlight_alpha sz y = Inr (hl_alpha sz y)
               \<and> im_px hl (x, y) = (255, 255, 255, hl_alpha sz y))
          \<and> (\<forall>x y. \<not> (0 \<le> y \<and> y < sz div 3) \<longrightarrow>
                 im_px hl (x, y) = (0, 0, 0, 0) \<and> im_px out (x, y) = im_px base (x, y))
          \<and> (0 < sz div 3 \<longrightarrow> hl_alpha sz 0 = 80)
          \<and> (\<forall>y y'. 0 \<le> y \<and> y \<le> y' \<and> y' < sz div 3 \<longrightarrow>
                 hl_alpha sz y' \<le> hl_alpha sz y \<and> 0 \<le> hl_alpha sz y' \<and> hl_alpha sz y \<le> 80)"
    apply (rule exI[of _ "base_image R sz"], rule exI[of _ "highlight_image sz"],
           rule exI[of _ "icon_image R sz"])
    apply (simp only: w' r icon_world_heap)
    apply (intro conjI refl a b c d e)
    done
qed

theorem create_icon_highlight_witness:
  "\<exists>r w' base hl out.
      create_icon no_raster 16 blank_world = (Inr r, w')
    \<and> heap w' 0 = Some base \<and> heap w' (Suc (Suc 0)) = Some hl \<and> heap w' r = Some out
    \<and> im_px hl (3, 0) = (255, 255, 255, 80)
    \<and> hl_alpha 16 4 \<le> hl_alpha 16 1
    \<and> im_px hl (3, 5) = (0, 0, 0, 0) \<and> im_px out (3, 5) = im_px base (3, 5)"
proof -
  note t = create_icon_highlight[of 16 no_raster blank_world]
  have n: "next_ref blank_world = 0" by (simp add: blank_world_def)
  from t obtain r w' where run: "create_icon no_raster 16 blank_world = (Inr r, w')" by auto
  from t run obtain base hl out where
    h: "heap w' 0 = Some base" "heap w' (Suc (Suc 0)) = Some hl" "heap w' r = Some out"
    and i: "\<forall>x y. 0 \<le> x \<and> x < 16 \<and> 0 \<le> y \<and> y < 16 div (3::int) \<longrightarrow>
                 highlight_alpha 16 y = Inr (hl_alpha 16 y)
               \<and> im_px hl (x, y) = (255, 255, 255, hl_alpha 16 y)"
    and o: "\<forall>x y. \<not> (0 \<le> y \<and> y < 16 div (3::int)) \<longrightarrow>
                 im_px hl (x, y) = (0, 0, 0, 0) \<and> im_px out (x, y) = im_px base (x, y)"
    and t0: "0 < 16 div (3::int) \<longrightarrow> hl_alpha 16 0 = 80"
    and m: "\<forall>y y'. 0 \<le> y \<and> y \<le> y' \<and> y' < 16 div (3::int) \<longrightarrow>
                 hl_alpha 16 y' \<le> hl_alpha 16 y \<and> 0 \<le> hl_alpha 16 y' \<and> hl_alpha 16 y \<le> 80"
    unfolding n by blast
  have a0: "hl_alpha 16 0 = 80" using t0 by simp
  have p0: "im_px hl (3, 0) = (255, 255, 255, 80)" using i[rule_format, of 3 0] a0 by simp
  have p5: "im_px hl (3, 5) = (0, 0, 0, 0) \<and> im_px out (3, 5) = im_px base (3, 5)"
    using o[rule_format, of 5 3] by simp
  have mm: "hl_alpha 16 4 \<le> hl_alpha 16 1" using m[rule_format, of 1 4] by simp
  show ?thesis using run h p0 p5 mm by blast
qed


section \<open>Alpha of the returned image\<close>

lemma div255_alpha:
  assumes "0 \<le> a" "a \<le> 255"
  shows "div255 (a * 255 + 128) = a"
proof (cases "a \<le> 128")
  case True
  have "(a * 255 + 128) div 256 = a"
    by (rule int_div_pos_eq[where r = "128 - a"]) (use True assms in simp_all)
  moreover have "(a + (a * 255 + 128)) div 256 = a"
    by (rule int_div_pos_eq[where r = 128]) simp_all
  ultimately show ?thesis by (simp add: div255_def)
next
  case False
  have "(a * 255 + 128) div 256 = a - 1"
    by (rule int_div_pos_eq[where r = "384 - a"]) (use False assms in simp_all)
  moreover have "(a - 1 + (a * 255 + 128)) div 256 = a"
    by (rule int_div_pos_eq[where r = 127]) simp_all
  ultimately show ?thesis by (simp add: div255_def)
qed

lemma composite_alpha_opaque:
  assumes "0 \<le> sa" "sa \<le> 255"
  shows "alpha (composite_px (dr, dg, db, 255) (sr, sg, sb, sa)) = 255"
proof -
  have "sa * 255 + 255 * (255 - sa) = 65025" by (simp add: algebra_simps)
  then show ?thesis by (simp add: composite_px_def alpha_def Let_def div255_def)
qed

lemma composite_alpha_clear:
  assumes "0 \<le> sa" "sa \<le> 255"
  shows "alpha (composite_px (dr, dg, db, 0) (sr, sg, sb, sa)) = sa"
  using div255_alpha[OF assms] by (simp add: composite_px_def alpha_def Let_def)

lemma base_alpha:
  assumes "0 \<le> x" "x < sz" "0 \<le> y" "y < sz"
  shows "\<exists>r g b. im_px (base_image R sz) (x, y) =
           (r, g, b, if list_ex (\<lambda>sh. covers R sh (x, y)) (crab_shapes sz) \<or> covers R (mask_shape sz) (x, y)
                     then 255 else 0)"
  using assms
  by (auto simp: base_image_def paint_all_def with_alpha_def mask_image_def new_image_def inside_def
      gradient_image_def paint_rows_def split: prod.splits)

lemma icon_alpha:
  assumes "0 \<le> x" "x < sz" "0 \<le> y" "y < sz"
  shows "alpha (im_px (icon_image R sz) (x, y)) =
           (if list_ex (\<lambda>sh. covers R sh (x, y)) (crab_shapes sz) \<or> covers R (mask_shape sz) (x, y)
            then 255
            else if y < sz div 3 then hl_alpha sz y else 0)"
proof -
  obtain r g b where b: "im_px (base_image R sz) (x, y) =
           (r, g, b, if list_ex (\<lambda>sh. covers R sh (x, y)) (crab_shapes sz) \<or> covers R (mask_shape sz) (x, y)
                     then 255 else 0)"
    using base_alpha[OF assms] by blast
  show ?thesis
  proof (cases "y < sz div 3")
    case True
    have h: "im_px (highlight_image sz) (x, y) = (255, 255, 255, hl_alpha sz y)"
      by (rule highlight_px_in[OF assms(1,2,3) True])
    have a: "0 \<le> hl_alpha sz y" "hl_alpha sz y \<le> 255"
      using hl_alpha_range(2,3)[OF assms(3) True] by simp_all
    show ?thesis
      unfolding icon_px b h using True composite_alpha_opaque[OF a] composite_alpha_clear[OF a]
      by simp
  next
    case False
    then have h: "im_px (highlight_image sz) (x, y) = (0, 0, 0, 0)"
      by (intro highlight_px_out) simp
    show ?thesis unfolding icon_px b h using False
      by (simp add: composite_px_transparent alpha_def)
  qed
qed

lemma blank_world_fields [simp]:
  "next_ref blank_world = 0" "calls blank_world = []" "stdout blank_world = []"
  "files blank_world p = None" "heap blank_world d = None"
  by (simp_all add: blank_world_def)

lemma sc16_eval:
  assumes "0 \<le> k" "k \<le> 64" "\<lfloor>fl (of_int k * (1 / 8))\<rfloor> = v"
  shows "sc 16 k = v"
proof -
  have f: "fl (of_int 16 / 128) = 1 / 8"
    using fl_exact[of 1 "- 3"] by (simp add: power_int_minus)
  have "sc 16 k = \<lfloor>fl (of_int k * fl (of_int 16 / 128))\<rfloor>"
    by (rule sc_eq) (use assms in simp_all)
  then show ?thesis unfolding f using assms(3) by simp
qed

lemma sc16:
  "sc 16 40 = 5" "sc 16 28 = 3" "sc 16 5 = 0" "sc 16 15 = 1" "sc 16 18 = 2" "sc 16 6 = 0"
  "sc 16 3 = 0" "sc 16 20 = 2" "sc 16 45 = 5" "sc 16 10 = 1" "sc 16 4 = 0" "sc 16 35 = 4"
  by (rule sc16_eval, simp, simp, code_simp)+

lemma crab_misses_corner_16:
  "\<not> list_ex (\<lambda>sh. covers ideal_raster sh (0, 0)) (crab_shapes 16)"
  by (simp add: crab_shapes_def crab_legs_def Let_def sc16 covers_def ideal_raster_def in_box_def cross_def)

lemma mask_misses_corner_16: "\<not> covers ideal_raster (mask_shape 16) (0, 0)"
  by (simp add: mask_shape_def covers_def ideal_raster_def in_box_def)

text \<open>
  C1. At size 16 the pixel \<open>(0, 0)\<close> lies in a corner that the rounded-rectangle mask clips:
  the mask is 0 there and the crab does not reach it. In the image that \<open>create_icon\<close>
  returns its alpha is 80, the alpha of the top row of the highlight, and not 0: the
  highlight is composited over the full width of the image after the mask has been applied.
  The lower left corner \<open>(0, 15)\<close>, below the highlight band, does have alpha 0.
\<close>

theorem create_icon_corner_alpha:
  "map_option fst (heap_pixel (create_icon ideal_raster 16 blank_world) 1 (0, 0)) = Some 0
   \<and> map_option alpha (result_pixel (create_icon ideal_raster 16 blank_world) (0, 0)) = Some 80
   \<and> map_option fst (heap_pixel (create_icon ideal_raster 16 blank_world) 1 (0, 15)) = Some 0
   \<and> map_option alpha (result_pixel (create_icon ideal_raster 16 blank_world) (0, 15)) = Some 0"
proof -
  have run: "create_icon ideal_raster 16 blank_world = (Inr 3, icon_world ideal_raster 16 blank_world)"
    using create_icon_returns[of 16 ideal_raster blank_world] by (simp add: eval_nat_numeral)
  have h: "heap (icon_world ideal_raster 16 blank_world) 3 = Some (icon_image ideal_raster 16)"
    "heap (icon_world ideal_raster 16 blank_world) (Suc 0) = Some (mask_image ideal_raster 16)"
    using icon_world_heap(2,4)[of ideal_raster 16 blank_world] by (simp_all add: eval_nat_numeral)
  have m0: "fst (im_px (mask_image ideal_raster 16) (0, 0)) = 0"
    using mask_misses_corner_16 by (simp add: mask_image_def paint_all_def new_image_def)
  have m15: "fst (im_px (mask_image ideal_raster 16) (0, 15)) = 0"
    by (simp add: mask_image_def paint_all_def new_image_def mask_shape_def covers_def
        ideal_raster_def in_box_def)
  have a0: "alpha (im_px (icon_image ideal_raster 16) (0, 0)) = 80"
    using icon_alpha[of 0 16 0 ideal_raster] crab_misses_corner_16 mask_misses_corner_16
      hl_alpha_top[of 16] by simp
  have c15: "\<not> list_ex (\<lambda>sh. covers ideal_raster sh (0, 15)) (crab_shapes 16)"
    by (simp add: crab_shapes_def crab_legs_def Let_def sc16 covers_def ideal_raster_def in_box_def cross_def)
  have k15: "\<not> covers ideal_raster (mask_shape 16) (0, 15)"
    by (simp add: mask_shape_def covers_def ideal_raster_def in_box_def)
  have a15: "alpha (im_px (icon_image ideal_raster 16) (0, 15)) = 0"
    using icon_alpha[of 0 16 15 ideal_raster] c15 k15 by simp
  show ?thesis
    by (simp add: run result_pixel_def heap_pixel_def h m0 m15 a0 a15)
qed


section \<open>Channel values stay in range\<close>

lemma div255_mono: "a \<le> b \<Longrightarrow> div255 a \<le> div255 b"
  unfolding div255_def by (intro zdiv_mono1 add_mono) simp_all

lemma div255_nonneg: "0 \<le> a \<Longrightarrow> 0 \<le> div255 a"
  unfolding div255_def by (simp add: pos_imp_zdiv_nonneg_iff)

lemma blend_channel:
  assumes x: "0 \<le> x" "x \<le> 255" and y: "0 \<le> y" "y \<le> 255"
    and c: "0 \<le> c1" "c1 \<le> 32640"
  shows "in_byte (div255 (x * c1 + y * (255 * 128 - c1) + 16384) div 128)"
proof -
  let ?t = "x * c1 + y * (255 * 128 - c1) + 16384"
  have c2: "0 \<le> 255 * 128 - c1" using c by simp
  have a: "x * c1 \<le> 255 * c1" using x c by (intro mult_right_mono) simp_all
  have b: "y * (255 * 128 - c1) \<le> 255 * (255 * 128 - c1)" using y c2 by (intro mult_right_mono) simp_all
  have t0: "0 \<le> ?t" using x y c c2 by simp
  have tu: "?t \<le> 8339584" using a b by simp
  have "div255 ?t \<le> div255 8339584" by (rule div255_mono[OF tu])
  also have "\<dots> = 32703" by (simp add: div255_def)
  finally have "div255 ?t div 128 \<le> 32703 div 128" by (intro zdiv_mono1) simp_all
  then have u: "div255 ?t div 128 \<le> 255" by simp
  have "0 \<le> div255 ?t div 128" using div255_nonneg[OF t0] by (simp add: pos_imp_zdiv_nonneg_iff)
  then show ?thesis using u by (simp add: in_byte_def)
qed

lemma coef_bound:
  fixes sa o' :: int
  assumes "sa * 255 \<le> o'" "0 < o'"
  shows "sa * 255 * 255 * 128 div o' \<le> 32640"
proof -
  have "sa * 255 * 255 * 128 = sa * 255 * 32640" by simp
  also have "\<dots> \<le> o' * 32640" using assms(1) by (intro mult_right_mono) simp_all
  finally have "sa * 255 * 255 * 128 div o' \<le> o' * 32640 div o'"
    using assms(2) by (intro zdiv_mono1) simp_all
  also have "o' * 32640 div o' = 32640" using assms(2) by simp
  finally show ?thesis .
qed

lemma composite_px_ok:
  assumes "pixel_ok d" "pixel_ok s"
  shows "pixel_ok (composite_px d s)"
proof -
  obtain dr dg db da where d: "d = (dr, dg, db, da)" by (cases d) auto
  obtain sr sg sb sa where s: "s = (sr, sg, sb, sa)" by (cases s) auto
  have D: "0 \<le> dr" "dr \<le> 255" "0 \<le> dg" "dg \<le> 255" "0 \<le> db" "db \<le> 255" "0 \<le> da" "da \<le> 255"
    using assms(1) by (simp_all add: d pixel_ok_def in_byte_def)
  have S: "0 \<le> sr" "sr \<le> 255" "0 \<le> sg" "sg \<le> 255" "0 \<le> sb" "sb \<le> 255" "0 \<le> sa" "sa \<le> 255"
    using assms(2) by (simp_all add: s pixel_ok_def in_byte_def)
  show ?thesis
  proof (cases "sa = 0")
    case True
    then show ?thesis using assms(1) by (simp add: composite_px_def d s)
  next
    case False
    then have sa1: "1 \<le> sa" using S by simp
    let ?o = "sa * 255 + da * (255 - sa)"
    let ?c1 = "sa * 255 * 255 * 128 div ?o"
    have bl: "0 \<le> da * (255 - sa)" using D S by simp
    have blu: "da * (255 - sa) \<le> 255 * (255 - sa)" using D S by (intro mult_right_mono) simp_all
    have o1: "sa * 255 \<le> ?o" using bl by simp
    have opos: "0 < ?o" using o1 sa1 by linarith
    have ou: "?o \<le> 65025" using blu by simp
    have c0: "0 \<le> ?c1" using opos S by (simp add: pos_imp_zdiv_nonneg_iff)
    have cu: "?c1 \<le> 32640" by (rule coef_bound[OF o1 opos])
    have "div255 (?o + 128) \<le> div255 65153" using ou by (intro div255_mono) simp
    also have "\<dots> = 255" by (simp add: div255_def)
    finally have au: "div255 (?o + 128) \<le> 255" .
    have a0: "0 \<le> div255 (?o + 128)" using opos by (intro div255_nonneg) simp
    have r: "in_byte (div255 (sr * ?c1 + dr * (255 * 128 - ?c1) + 16384) div 128)"
      by (rule blend_channel[OF S(1,2) D(1,2) c0 cu])
    have g: "in_byte (div255 (sg * ?c1 + dg * (255 * 128 - ?c1) + 16384) div 128)"
      by (rule blend_channel[OF S(3,4) D(3,4) c0 cu])
    have b: "in_byte (div255 (sb * ?c1 + db * (255 * 128 - ?c1) + 16384) div 128)"
      by (rule blend_channel[OF S(5,6) D(5,6) c0 cu])
    show ?thesis
      using False r g b a0 au by (simp add: composite_px_def d s Let_def pixel_ok_def in_byte_def)
  qed
qed

lemma in_byte_simps [simp]:
  "in_byte (clip8 v)" "in_byte (v mod 256)" "in_byte 0" "in_byte 255"
  by (simp_all add: in_byte_def clip8_def)

lemma getink_ok: "getink m c = Inr p \<Longrightarrow> pixel_ok p"
  by (auto simp: getink_def pixel_ok_def split: mode.splits color.splits)

lemma pixel_ok_zero [simp]: "pixel_ok (0, 0, 0, 0)"
  by (simp add: pixel_ok_def in_byte_def)

lemma row_ink_ok: "pixel_ok (row_ink m col y)"
proof (cases "ebind (col y) (getink m)")
  case (Inl e)
  then show ?thesis by (simp add: row_ink_def outr_def)
next
  case (Inr p)
  then obtain c where "getink m c = Inr p" by (auto simp: ebind_def split: sum.splits)
  then have "pixel_ok p" by (rule getink_ok)
  then show ?thesis using Inr by (simp add: row_ink_def outr_def)
qed

lemma paint_rows_ok:
  assumes "\<And>p. pixel_ok (im_px im p)"
  shows "pixel_ok (im_px (paint_rows sz n col im) p)"
  using assms by (simp add: paint_rows_def row_ink_ok)

lemma paint_all_ok:
  assumes "\<And>p. pixel_ok (im_px im p)" "pixel_ok ink"
  shows "pixel_ok (im_px (paint_all R shs ink im) p)"
  using assms by (simp add: paint_all_def)

lemma gradient_image_ok: "pixel_ok (im_px (gradient_image sz c1 c2) p)"
  unfolding gradient_image_def by (rule paint_rows_ok) (simp add: new_image_def)

lemma mask_image_ok: "pixel_ok (im_px (mask_image R sz) p)"
  unfolding mask_image_def
  by (rule paint_all_ok) (simp_all add: new_image_def pixel_ok_def in_byte_def)

lemma with_alpha_ok:
  assumes "\<And>p. pixel_ok (im_px im p)" "\<And>p. pixel_ok (im_px mk p)"
  shows "pixel_ok (im_px (with_alpha im mk) p)"
  using assms(1)[of p] assms(2)[of p]
  by (auto simp: with_alpha_def pixel_ok_def split: prod.splits)

lemma base_image_ok: "pixel_ok (im_px (base_image R sz) p)"
  unfolding base_image_def
  by (intro paint_all_ok with_alpha_ok gradient_image_ok mask_image_ok)
     (simp add: pixel_ok_def in_byte_def)

lemma highlight_image_ok: "pixel_ok (im_px (highlight_image sz) p)"
  unfolding highlight_image_def by (rule paint_rows_ok) (simp add: new_image_def)

lemma icon_image_ok: "pixel_ok (im_px (icon_image R sz) p)"
  unfolding icon_px by (intro composite_px_ok base_image_ok highlight_image_ok)

lemma row_calls_ok:
  assumes "\<And>y. 0 \<le> y \<Longrightarrow> y < n \<Longrightarrow> color_ok (outr (CInt 0) (col y))"
  shows "list_all (\<lambda>call. color_ok (snd (snd call))) (row_calls d sz n col)"
  using assms by (auto simp: row_calls_def list_all_iff py_range_def)

lemma icon_calls_ok:
  "list_all (\<lambda>call. color_ok (snd (snd call))) (icon_calls n sz)"
proof -
  have g: "list_all (\<lambda>call. color_ok (snd (snd call)))
             (row_calls n sz sz (gradient_color sz BLUE_LIGHT BLUE_DARK))"
  proof (rule row_calls_ok)
    fix y :: int assume y: "0 \<le> y" "y < sz"
    note c = color_range
    show "color_ok (outr (CInt 0) (gradient_color sz BLUE_LIGHT BLUE_DARK y))"
      using gradient_value_range(2,3)[OF c(1,2,7,8) y] gradient_value_range(2,3)[OF c(3,4,9,10) y]
        gradient_value_range(2,3)[OF c(5,6,11,12) y]
      by (simp add: gradient_color_ok[OF color_range y] outr_def color_ok_def in_byte_def)
  qed
  have h: "list_all (\<lambda>call. color_ok (snd (snd call)))
             (row_calls (Suc (Suc n)) sz (sz div 3) (highlight_color sz))"
  proof (rule row_calls_ok)
    fix y :: int assume y: "0 \<le> y" "y < sz div 3"
    show "color_ok (outr (CInt 0) (highlight_color sz y))"
      using hl_alpha_range(2,3)[OF y]
      by (simp add: highlight_color_ok[OF y] outr_def color_ok_def in_byte_def)
  qed
  have m: "color_ok (CInt 255)" "color_ok WHITE" by (simp_all add: color_ok_def WHITE_def)
  have c: "list_all (\<lambda>call. color_ok (snd (snd call))) (map (\<lambda>sh. (n, sh, WHITE)) (crab_shapes sz))"
    using m by (simp add: list_all_iff)
  show ?thesis
    using g h m c by (simp add: icon_calls_def)
qed

text \<open>
  C9. For every supported size one run of \<open>create_icon\<close> returns, and in it every colour the
  script hands to the library (the interpolated gradient rows, the mask fill, the crab's
  white, the highlight with its computed alpha) has all its channels in 0..255, and every
  pixel of every image the run creates (the gradient with its alpha and the crab, the mask,
  the highlight, the composited result) has all its channels in 0..255. The gradient that
  \<open>create_gradient\<close> returns for the fixed colours is in range too.
\<close>

theorem pixel_values_in_range:
  assumes "sz \<in> {16, 48, 128, 256}"
  shows "\<exists>r w' g wg gim.
           create_icon R sz w = (Inr r, w')
         \<and> list_all (\<lambda>call. color_ok (snd (snd call))) (drop (length (calls w)) (calls w'))
         \<and> (\<forall>d p. next_ref w \<le> d \<and> d < next_ref w'
                \<longrightarrow> (\<exists>im. heap w' d = Some im \<and> pixel_ok (im_px im p)))
         \<and> create_gradient R sz BLUE_LIGHT BLUE_DARK w = (Inr g, wg)
         \<and> heap wg g = Some gim \<and> (\<forall>p. pixel_ok (im_px gim p))"
proof -
  have sz: "1 \<le> sz" "sz \<le> 2 ^ 1000" "0 \<le> sz" using supported_size[OF assms] by simp_all
  let ?n = "next_ref w"
  have run: "create_icon R sz w = (Inr (Suc (Suc (Suc ?n))), icon_world R sz w)"
    by (rule create_icon_returns[OF sz(1,2)])
  obtain wg where g: "create_gradient R sz BLUE_LIGHT BLUE_DARK w = (Inr ?n, wg)"
    using create_gradient_returns[OF sz(3) color_range] by blast
  have hg: "heap wg ?n = Some (gradient_image sz BLUE_LIGHT BLUE_DARK)"
    using create_gradient_effect(3)[OF g] by simp
  have c: "list_all (\<lambda>call. color_ok (snd (snd call)))
             (drop (length (calls w)) (calls (icon_world R sz w)))"
    by (simp add: icon_world_def icon_calls_ok)
  have p: "\<forall>d p. ?n \<le> d \<and> d < next_ref (icon_world R sz w)
                \<longrightarrow> (\<exists>im. heap (icon_world R sz w) d = Some im \<and> pixel_ok (im_px im p))"
  proof (intro allI impI)
    fix d p assume "?n \<le> d \<and> d < next_ref (icon_world R sz w)"
    then have "d = ?n \<or> d = Suc ?n \<or> d = Suc (Suc ?n) \<or> d = Suc (Suc (Suc ?n))"
      by (auto simp: icon_world_def)
    then show "\<exists>im. heap (icon_world R sz w) d = Some im \<and> pixel_ok (im_px im p)"
      using icon_world_heap[of R sz w]
      by (auto simp: base_image_ok mask_image_ok highlight_image_ok icon_image_ok)
  qed
  show ?thesis
    using run c p g hg gradient_image_ok by blast
qed

theorem pixel_values_in_range_witness:
  "\<exists>r w' g wg gim.
           create_icon no_raster 48 blank_world = (Inr r, w')
         \<and> list_all (\<lambda>call. color_ok (snd (snd call))) (drop (length (calls blank_world)) (calls w'))
         \<and> (\<exists>im. heap w' 3 = Some im \<and> pixel_ok (im_px im (0, 0)))
         \<and> create_gradient no_raster 48 BLUE_LIGHT BLUE_DARK blank_world = (Inr g, wg)
         \<and> heap wg g = Some gim \<and> pixel_ok (im_px gim (0, 47))"
proof -
  from pixel_values_in_range[of 48 no_raster blank_world]
  obtain r w' g wg gim where
    a: "create_icon no_raster 48 blank_world = (Inr r, w')"
    "list_all (\<lambda>call. color_ok (snd (snd call))) (drop (length (calls blank_world)) (calls w'))"
    and b: "\<forall>d p. next_ref blank_world \<le> d \<and> d < next_ref w'
                \<longrightarrow> (\<exists>im. heap w' d = Some im \<and> pixel_ok (im_px im p))"
    and c: "create_gradient no_raster 48 BLUE_LIGHT BLUE_DARK blank_world = (Inr g, wg)"
    "heap wg g = Some gim" "\<forall>p. pixel_ok (im_px gim p)"
    by auto
  have "w' = icon_world no_raster 48 blank_world" by (rule create_icon_effect(2)[OF a(1)])
  then have "next_ref w' = 4" by (simp add: icon_world_def)
  then have "\<exists>im. heap w' 3 = Some im \<and> pixel_ok (im_px im (0, 0))"
    using b[rule_format, of 3 "(0, 0)"] by simp
  then show ?thesis using a c by blast
qed


end
